theory Spec2Isabelle
  imports Main "HOL-Library.Sublist"
begin

section \<open>Locations and file-system nodes\<close>

text \<open>
  A location (\<open>URI\<close> of \<open>vscode-uri\<close>) is kept as the list of its path segments below the
  file-system root: \<open>/ws/sub/c.lang\<close> is \<open>[''ws'', ''sub'', ''c.lang'']\<close>.  The only
  operation the traversal applies to a location is \<open>Utils.resolvePath(folderPath, entry.name)\<close>
  with the name of a directory entry, which is a single path segment; it yields the location
  of that child.
\<close>

type_synonym URI = "string list"

definition resolvePath :: "URI \<Rightarrow> string \<Rightarrow> URI" where
  "resolvePath folderPath child = folderPath @ [child]"

text \<open>
  The failures of the underlying storage (Node's \<open>fs\<close>): what a rejected promise carries.
\<close>

datatype error = ENOENT | ENOTDIR | EACCES | EOTHER string

text \<open>
  \<open>fs.Dirent\<close>: a name and the type tag the operating system reported for the entry.
  \<open>dirent.isFile()\<close> and \<open>dirent.isDirectory()\<close> compare the tag with one constant each.
\<close>

datatype dirent_type =
  UV_DIRENT_UNKNOWN | UV_DIRENT_FILE | UV_DIRENT_DIR | UV_DIRENT_LINK
  | UV_DIRENT_FIFO | UV_DIRENT_SOCKET | UV_DIRENT_CHAR | UV_DIRENT_BLOCK

record Dirent =
  dirent_name :: string
  dirent_type :: dirent_type

definition Dirent_isFile :: "Dirent \<Rightarrow> bool" where
  "Dirent_isFile d = (dirent_type d = UV_DIRENT_FILE)"

definition Dirent_isDirectory :: "Dirent \<Rightarrow> bool" where
  "Dirent_isDirectory d = (dirent_type d = UV_DIRENT_DIR)"

text \<open>The interface \<open>FileSystemNode\<close>, with the raw entry that \<open>getFolderNodes\<close> adds.\<close>

record FileSystemNode =
  dirent :: Dirent
  isFile :: bool
  isDirectory :: bool
  name :: string
  container :: URI

type_synonym FileSystemFilter = "FileSystemNode \<Rightarrow> bool"

text \<open>
  The storage itself is the environment: \<open>fs.promises.readdir(path, {withFileTypes: true})\<close>
  is a function from the listed location to a failure or the entries in storage order.
\<close>

type_synonym readdir = "URI \<Rightarrow> error + Dirent list"

section \<open>NodeFileSystemProvider\<close>

definition getFolderNodes :: "readdir \<Rightarrow> URI \<Rightarrow> error + FileSystemNode list" where
  "getFolderNodes rd folderPath =
     (case rd folderPath of
        Inl e \<Rightarrow> Inl e
      | Inr dirents \<Rightarrow>
          Inr (map (\<lambda>d. \<lparr> dirent = d,
                           isFile = Dirent_isFile d,
                           isDirectory = Dirent_isDirectory d,
                           name = dirent_name d,
                           container = folderPath \<rparr>) dirents))"

text \<open>
  \<open>for (const entry of content) { ... }\<close> with an awaited body: the body is run on the
  entries in order, each run starting from the state the previous one left; a body that
  throws ends the loop with that failure, a body that never returns (\<open>None\<close>) ends it
  without a result.
\<close>

fun forEach :: "('a \<Rightarrow> 's \<Rightarrow> (error + 's) option) \<Rightarrow> 'a list \<Rightarrow> 's \<Rightarrow> (error + 's) option" where
  "forEach body [] s = Some (Inr s)"
| "forEach body (entry # rest) s =
     (case body entry s of
        None \<Rightarrow> None
      | Some (Inl e) \<Rightarrow> Some (Inl e)
      | Some (Inr s') \<Rightarrow> forEach body rest s')"

text \<open>\<open>!filter || filter(entry)\<close> for the optional filter argument.\<close>

definition passes :: "FileSystemFilter option \<Rightarrow> FileSystemNode \<Rightarrow> bool" where
  "passes flt entry = (case flt of None \<Rightarrow> True | Some f \<Rightarrow> f entry)"

text \<open>
  \<open>traverseFolder\<close>.  The recursion follows the directory structure and has no bound of its
  own, so the model carries the number of nested calls still allowed; \<open>None\<close> stands for a
  call that has not returned within it.  The collector is a callback writing to state that
  the caller owns: it is a state transformer here, and the state is threaded through the
  loop.  A failed listing is a thrown exception: the state collected so far is not returned.
\<close>

primrec traverseFolder ::
  "nat \<Rightarrow> readdir \<Rightarrow> URI \<Rightarrow> FileSystemFilter option \<Rightarrow> (URI \<Rightarrow> 's \<Rightarrow> 's) \<Rightarrow> 's
     \<Rightarrow> (error + 's) option" where
  "traverseFolder 0 rd folderPath flt collector s = None"
| "traverseFolder (Suc fuel) rd folderPath flt collector s =
     (case getFolderNodes rd folderPath of
        Inl e \<Rightarrow> Some (Inl e)
      | Inr content \<Rightarrow>
          forEach
            (\<lambda>entry s.
               if passes flt entry then
                 (let uri = resolvePath folderPath (name entry) in
                  if isDirectory entry then traverseFolder fuel rd uri flt collector s
                  else if isFile entry then Some (Inr (collector uri s))
                  else Some (Inr s))
               else Some (Inr s))
            content s)"

text \<open>\<open>traverse\<close>: the collector pushes onto the array \<open>uris\<close>, which starts empty.\<close>

definition push :: "'a \<Rightarrow> 'a list \<Rightarrow> 'a list" where
  "push x xs = xs @ [x]"

definition traverse :: "nat \<Rightarrow> readdir \<Rightarrow> URI \<Rightarrow> FileSystemFilter option \<Rightarrow> (error + URI list) option" where
  "traverse fuel rd root flt = traverseFolder fuel rd root flt push []"

section \<open>DefaultWorkspaceManager: the inclusion filter\<close>

definition startsWith :: "string \<Rightarrow> string \<Rightarrow> bool" where
  "startsWith s p = prefix p s"

text \<open>
  \<open>path.extname\<close> of Node (POSIX flavour): the extension of the last portion of the path,
  from the last \<open>.\<close> to the end; empty when that portion has no \<open>.\<close>, when its only \<open>.\<close>
  is its first character, and when it is \<open>..\<close>.  Trailing separators are ignored.
\<close>

definition lastPortion :: "string \<Rightarrow> string" where
  "lastPortion p =
     rev (takeWhile (\<lambda>c. c \<noteq> CHR ''/'') (dropWhile (\<lambda>c. c = CHR ''/'') (rev p)))"

definition extname :: "string \<Rightarrow> string" where
  "extname p =
     (let part = lastPortion p;
          afterDot = rev (takeWhile (\<lambda>c. c \<noteq> CHR ''.'') (rev part))
      in if CHR ''.'' \<notin> set part then ''''
         else if Suc (length afterDot) = length part then ''''
         else if part = ''..'' then ''''
         else CHR ''.'' # afterDot)"

definition includeNode :: "FileSystemNode \<Rightarrow> string list \<Rightarrow> bool" where
  "includeNode node fileExtensions =
     (if startsWith (name node) ''.'' then False
      else if isDirectory node then name node \<noteq> ''node_modules'' \<and> name node \<noteq> ''out''
      else if isFile node then extname (name node) \<in> set fileExtensions
      else False)"


section \<open>DefaultWorkspaceManager: workspace initialization\<close>

text \<open>\<open>WorkspaceFolder\<close> of the language-server protocol: a location as text, and a label.\<close>

record WorkspaceFolder =
  uri :: string
  label :: string

text \<open>
  \<open>URI.parse\<close> on the text of a file location: the scheme and the empty authority are
  dropped and the path is cut at its separators.
\<close>

fun segments :: "string \<Rightarrow> string \<Rightarrow> string list" where
  "segments cur [] = (if cur = [] then [] else [cur])"
| "segments cur (c # cs) =
     (if c = CHR ''/'' then (if cur = [] then segments [] cs else cur # segments [] cs)
      else segments (cur @ [c]) cs)"

definition URI_parse :: "string \<Rightarrow> URI" where
  "URI_parse s = segments [] (if startsWith s ''file://'' then drop 7 s else s)"

text \<open>The default of the overridable \<open>getRootFolder\<close>.\<close>

definition getRootFolder :: "WorkspaceFolder \<Rightarrow> URI" where
  "getRootFolder workspaceFolder = URI_parse (uri workspaceFolder)"

text \<open>The default of the overridable \<open>loadAdditionalDocuments\<close>: it contributes nothing.\<close>

definition loadAdditionalDocuments :: "WorkspaceFolder list \<Rightarrow> 'st \<Rightarrow> (error + 'doc list) \<times> 'st" where
  "loadAdditionalDocuments folders st = (Inr [], st)"

record LanguageMetaData =
  languageId :: string
  fileExtensions :: "string list"

text \<open>
  The services the manager is constructed from, and its two overridable methods that reach
  outside it.  \<open>'doc\<close> is \<open>LangiumDocument\<close>; \<open>'st\<close> is whatever state the document store
  and the hook keep.  A hook hands its documents to the collector one by one; the field
  gives them in that order, or the failure the hook's promise is rejected with.
\<close>

record ('doc, 'st) services =
  serviceRegistry_all :: "LanguageMetaData list"
  fs_readdir :: readdir
  getOrCreateDocument :: "URI \<Rightarrow> 'st \<Rightarrow> 'doc \<times> 'st"
  documentBuilder_outcome :: "'doc list \<Rightarrow> 'st \<Rightarrow> (error + unit) \<times> 'st"
  hook_getRootFolder :: "WorkspaceFolder \<Rightarrow> URI"
  hook_loadAdditionalDocuments :: "WorkspaceFolder list \<Rightarrow> 'st \<Rightarrow> (error + 'doc list) \<times> 'st"

text \<open>
  What is observed of a run: the state of the collaborators and the arguments of every call of
  \<open>documentBuilder.build\<close>, oldest first.
\<close>

record ('doc, 'st) world =
  store :: 'st
  buildCalls :: "'doc list list"

definition documentBuilder_build ::
  "('doc, 'st) services \<Rightarrow> 'doc list \<Rightarrow> ('doc, 'st) world \<Rightarrow> (error + unit) \<times> ('doc, 'st) world" where
  "documentBuilder_build sv documents w =
     (let (r, st') = documentBuilder_outcome sv documents (store w)
      in (r, \<lparr> store = st', buildCalls = buildCalls w @ [documents] \<rparr>))"

text \<open>\<open>uris.map(uri => this.langiumDocuments.getOrCreateDocument(uri))\<close>, left to right.\<close>

fun mapCalls :: "('a \<Rightarrow> 'st \<Rightarrow> 'b \<times> 'st) \<Rightarrow> 'a list \<Rightarrow> 'st \<Rightarrow> 'b list \<times> 'st" where
  "mapCalls f [] st = ([], st)"
| "mapCalls f (x # xs) st =
     (let (y, st1) = f x st; (ys, st2) = mapCalls f xs st1 in (y # ys, st2))"

text \<open>
  \<open>Promise.all\<close> over calls that only read: it is rejected as soon as one of them is, also
  while another has not returned; otherwise it is fulfilled, with the results in the order
  of the calls, once all of them are.  Which failure wins when several calls fail depends
  on timing; the model takes the first in the order of the calls.
\<close>

fun firstFailure :: "(error + 'a) option list \<Rightarrow> error option" where
  "firstFailure [] = None"
| "firstFailure (Some (Inl e) # rs) = Some e"
| "firstFailure (r # rs) = firstFailure rs"

fun allResults :: "(error + 'a) option list \<Rightarrow> 'a list option" where
  "allResults [] = Some []"
| "allResults (Some (Inr x) # rs) = (case allResults rs of None \<Rightarrow> None | Some xs \<Rightarrow> Some (x # xs))"
| "allResults (r # rs) = None"

definition Promise_all :: "(error + 'a) option list \<Rightarrow> (error + 'a list) option" where
  "Promise_all rs =
     (case firstFailure rs of
        Some e \<Rightarrow> Some (Inl e)
      | None \<Rightarrow> (case allResults rs of None \<Rightarrow> None | Some xs \<Rightarrow> Some (Inr xs)))"

text \<open>The manager's own \<open>traverseFolder(root, fileExtensions)\<close>.\<close>

definition WorkspaceManager_traverseFolder ::
  "nat \<Rightarrow> ('doc, 'st) services \<Rightarrow> URI \<Rightarrow> string list \<Rightarrow> (error + URI list) option" where
  "WorkspaceManager_traverseFolder fuel sv root exts =
     traverse fuel (fs_readdir sv) root (Some (\<lambda>node. includeNode node exts))"

definition initializeWorkspace ::
  "nat \<Rightarrow> ('doc, 'st) services \<Rightarrow> WorkspaceFolder list \<Rightarrow> ('doc, 'st) world
     \<Rightarrow> ((error + unit) \<times> ('doc, 'st) world) option" where
  "initializeWorkspace fuel sv folders w =
     (let exts = concat (map fileExtensions (serviceRegistry_all sv));
          rootFolders = map (hook_getRootFolder sv) folders
      in case Promise_all (map (\<lambda>e. WorkspaceManager_traverseFolder fuel sv e exts) rootFolders) of
           None \<Rightarrow> None
         | Some (Inl e) \<Rightarrow> Some (Inl e, w)
         | Some (Inr results) \<Rightarrow>
             (let uris = concat results;
                  (documents, st1) = mapCalls (getOrCreateDocument sv) uris (store w)
              in case hook_loadAdditionalDocuments sv folders st1 of
                   (Inl e, st2) \<Rightarrow> Some (Inl e, w\<lparr> store := st2 \<rparr>)
                 | (Inr extra, st2) \<Rightarrow>
                     Some (documentBuilder_build sv (documents @ extra) (w\<lparr> store := st2 \<rparr>))))"

section \<open>Directory trees\<close>

text \<open>
  A directory tree as storage holds it: regular files, directories with their named
  children in storage order, directories whose listing fails, and nodes of any other kind
  (symbolic links, devices, sockets) with the type tag storage reports for them.
\<close>

datatype fsnode =
  RegularFile
  | Directory "(string \<times> fsnode) list"
  | FailingDirectory error
  | Special dirent_type

fun typeOf :: "fsnode \<Rightarrow> dirent_type" where
  "typeOf RegularFile = UV_DIRENT_FILE"
| "typeOf (Directory cs) = UV_DIRENT_DIR"
| "typeOf (FailingDirectory e) = UV_DIRENT_DIR"
| "typeOf (Special t) = t"

fun lookup :: "fsnode \<Rightarrow> URI \<Rightarrow> fsnode option" where
  "lookup t [] = Some t"
| "lookup (Directory cs) (n # p) = (case map_of cs n of None \<Rightarrow> None | Some c \<Rightarrow> lookup c p)"
| "lookup t (n # p) = None"

definition readdirOf :: "fsnode \<Rightarrow> readdir" where
  "readdirOf T folderPath =
     (case lookup T folderPath of
        None \<Rightarrow> Inl ENOENT
      | Some RegularFile \<Rightarrow> Inl ENOTDIR
      | Some (Directory cs) \<Rightarrow>
          Inr (map (\<lambda>(n, c). \<lparr> dirent_name = n, dirent_type = typeOf c \<rparr>) cs)
      | Some (FailingDirectory e) \<Rightarrow> Inl e
      | Some (Special t) \<Rightarrow> Inl ENOTDIR)"

text \<open>
  Storage gives the children of one directory distinct names, and a tag other than file or
  directory to the nodes that are neither.
\<close>

fun wellFormed :: "fsnode \<Rightarrow> bool" and wellFormedChildren :: "(string \<times> fsnode) list \<Rightarrow> bool" where
  "wellFormed (Directory cs) = (distinct (map fst cs) \<and> wellFormedChildren cs)"
| "wellFormed (Special t) = (t \<noteq> UV_DIRENT_FILE \<and> t \<noteq> UV_DIRENT_DIR)"
| "wellFormed t = True"
| "wellFormedChildren [] = True"
| "wellFormedChildren (nc # cs) = (wellFormed (snd nc) \<and> wellFormedChildren cs)"

text \<open>A tree is readable when the listing of every directory in it succeeds.\<close>

fun readable :: "fsnode \<Rightarrow> bool" and readableChildren :: "(string \<times> fsnode) list \<Rightarrow> bool" where
  "readable (Directory cs) = readableChildren cs"
| "readable (FailingDirectory e) = False"
| "readable t = True"
| "readableChildren [] = True"
| "readableChildren (nc # cs) = (readable (snd nc) \<and> readableChildren cs)"

fun height :: "fsnode \<Rightarrow> nat" and heightChildren :: "(string \<times> fsnode) list \<Rightarrow> nat" where
  "height (Directory cs) = Suc (heightChildren cs)"
| "height t = 0"
| "heightChildren [] = 0"
| "heightChildren (nc # cs) = max (height (snd nc)) (heightChildren cs)"


text \<open>
  The tree in which the node at a location is replaced by another node; a tree without
  that location is left as it is.
\<close>

fun replaceAt :: "fsnode \<Rightarrow> URI \<Rightarrow> fsnode \<Rightarrow> fsnode" where
  "replaceAt t [] t' = t'"
| "replaceAt (Directory cs) (n # p) t' =
     Directory (map (\<lambda>(m, c). if m = n then (m, replaceAt c p t') else (m, c)) cs)"
| "replaceAt t (n # p) t' = t"

section \<open>Example workspaces\<close>

text \<open>
  The workspace of scenario A: \<open>/ws/a.lang\<close>, \<open>/ws/b.txt\<close>, \<open>/ws/sub/c.lang\<close> and
  \<open>/ws/node_modules/d.lang\<close>, one language with the extension \<open>.lang\<close>, a document store
  in which a document is its location, a build that succeeds, and the default hooks.
\<close>

definition scenarioA_tree :: fsnode where
  "scenarioA_tree =
     Directory [(''ws'', Directory
       [(''a.lang'', RegularFile),
        (''b.txt'', RegularFile),
        (''sub'', Directory [(''c.lang'', RegularFile)]),
        (''node_modules'', Directory [(''d.lang'', RegularFile)])])]"

definition scenarioA_services :: "(URI, unit) services" where
  "scenarioA_services =
     \<lparr> serviceRegistry_all = [\<lparr> languageId = ''lang'', fileExtensions = [''.lang''] \<rparr>],
       fs_readdir = readdirOf scenarioA_tree,
       getOrCreateDocument = (\<lambda>u st. (u, st)),
       documentBuilder_outcome = (\<lambda>ds st. (Inr (), st)),
       hook_getRootFolder = getRootFolder,
       hook_loadAdditionalDocuments = loadAdditionalDocuments \<rparr>"

text \<open>A folder holding a regular file and a symbolic link.\<close>

definition linkTree :: fsnode where
  "linkTree =
     Directory [(''ws'', Directory [(''a.lang'', RegularFile), (''link'', Special UV_DIRENT_LINK)])]"

text \<open>
  The workspace of scenario D: the listing of the subfolder \<open>/ws/sub\<close> fails with
  \<open>EACCES\<close>.
\<close>

definition scenarioD_tree :: fsnode where
  "scenarioD_tree =
     Directory [(''ws'', Directory
       [(''a.lang'', RegularFile),
        (''sub'', FailingDirectory EACCES)])]"

definition scenarioD_services :: "(URI, unit) services" where
  "scenarioD_services = scenarioA_services \<lparr> fs_readdir := readdirOf scenarioD_tree \<rparr>"

text \<open>
  The workspace of scenarios B and C: two workspace folders with one matching file each,
  and a hook that contributes one document that is not on disk.
\<close>

definition scenarioBC_tree :: fsnode where
  "scenarioBC_tree =
     Directory [(''ws1'', Directory [(''x.lang'', RegularFile), (''notes.txt'', RegularFile)]),
                (''ws2'', Directory [(''lib'', Directory [(''y.lang'', RegularFile)])])]"

definition scenarioBC_services :: "(URI, unit) services" where
  "scenarioBC_services =
     scenarioA_services
       \<lparr> fs_readdir := readdirOf scenarioBC_tree,
         hook_loadAdditionalDocuments := (\<lambda>folders st. (Inr [[''builtin'']], st)) \<rparr>"

text \<open>The workspace of scenario A with a \<open>node_modules\<close> folder that cannot be listed.\<close>

definition scenarioA_locked :: fsnode where
  "scenarioA_locked =
     Directory [(''ws'', Directory
       [(''a.lang'', RegularFile),
        (''b.txt'', RegularFile),
        (''sub'', Directory [(''c.lang'', RegularFile)]),
        (''node_modules'', FailingDirectory EACCES)])]"

text \<open>The entry that a listing of \<open>folderPath\<close> makes of a name and a type tag.\<close>

definition entryOf :: "URI \<Rightarrow> string \<Rightarrow> dirent_type \<Rightarrow> FileSystemNode" where
  "entryOf folderPath n t =
     \<lparr> dirent = \<lparr> dirent_name = n, dirent_type = t \<rparr>,
       isFile = (t = UV_DIRENT_FILE), isDirectory = (t = UV_DIRENT_DIR),
       name = n, container = folderPath \<rparr>"

section \<open>What a traversal visits\<close>

text \<open>
  The directories a traversal from \<open>p\<close> lists: \<open>p\<close> itself, and those a traversal lists from
  a directory entry of \<open>p\<close> that passes the filter.
\<close>

inductive visits :: "readdir \<Rightarrow> FileSystemFilter option \<Rightarrow> URI \<Rightarrow> URI \<Rightarrow> bool"
  for rd :: readdir and flt :: "FileSystemFilter option" where
  visits_root: "visits rd flt p p"
| visits_step: "getFolderNodes rd p = Inr es \<Longrightarrow> e \<in> set es \<Longrightarrow> passes flt e \<Longrightarrow> isDirectory e
     \<Longrightarrow> visits rd flt (resolvePath p (name e)) d \<Longrightarrow> visits rd flt p d"

code_pred visits .

text \<open>The body of the loop of \<open>traverseFolder\<close>, for the facts about the loop.\<close>

abbreviation (input) step ::
  "nat \<Rightarrow> readdir \<Rightarrow> URI \<Rightarrow> FileSystemFilter option \<Rightarrow> (URI \<Rightarrow> 's \<Rightarrow> 's) \<Rightarrow> FileSystemNode \<Rightarrow> 's \<Rightarrow> (error + 's) option" where
  "step fuel rd folderPath flt collector \<equiv>
     (\<lambda>entry s.
               if passes flt entry then
                 (let uri = resolvePath folderPath (name entry) in
                  if isDirectory entry then traverseFolder fuel rd uri flt collector s
                  else if isFile entry then Some (Inr (collector uri s))
                  else Some (Inr s))
               else Some (Inr s))"

section \<open>The course of a traversal\<close>

text \<open>
  What a traversal that returns has done, entry by entry: \<open>walkEntries rd flt p es us\<close>
  holds when running the loop of \<open>traverseFolder\<close> for the folder \<open>p\<close> over the entries
  \<open>es\<close> collects the locations \<open>us\<close>, in this order.
\<close>

inductive walkEntries ::
  "readdir \<Rightarrow> FileSystemFilter option \<Rightarrow> URI \<Rightarrow> FileSystemNode list \<Rightarrow> URI list \<Rightarrow> bool"
  for rd :: readdir and flt :: "FileSystemFilter option" where
  walk_done: "walkEntries rd flt p [] []"
| walk_skip: "\<not> passes flt e \<Longrightarrow> walkEntries rd flt p es us \<Longrightarrow> walkEntries rd flt p (e # es) us"
| walk_dir: "passes flt e \<Longrightarrow> isDirectory e
     \<Longrightarrow> getFolderNodes rd (resolvePath p (name e)) = Inr es'
     \<Longrightarrow> walkEntries rd flt (resolvePath p (name e)) es' us1
     \<Longrightarrow> walkEntries rd flt p es us2
     \<Longrightarrow> walkEntries rd flt p (e # es) (us1 @ us2)"
| walk_file: "passes flt e \<Longrightarrow> \<not> isDirectory e \<Longrightarrow> isFile e
     \<Longrightarrow> walkEntries rd flt p es us
     \<Longrightarrow> walkEntries rd flt p (e # es) (resolvePath p (name e) # us)"
| walk_other: "passes flt e \<Longrightarrow> \<not> isDirectory e \<Longrightarrow> \<not> isFile e
     \<Longrightarrow> walkEntries rd flt p es us
     \<Longrightarrow> walkEntries rd flt p (e # es) us"

text \<open>Storage never lists two entries of one directory under the same name.\<close>

definition distinctNames :: "readdir \<Rightarrow> bool" where
  "distinctNames rd = (\<forall>d ds. rd d = Inr ds \<longrightarrow> distinct (map dirent_name ds))"

text \<open>\<open>a\<close> occurs in \<open>xs\<close> at a position before an occurrence of \<open>b\<close>.\<close>

definition before :: "'a list \<Rightarrow> 'a \<Rightarrow> 'a \<Rightarrow> bool" where
  "before xs a b = (\<exists>x y z. xs = x @ a # y @ b # z)"

section \<open>The inclusion filter\<close>

lemma lastPortion_no_slash: "CHR ''/'' \<notin> set p \<Longrightarrow> lastPortion p = p"
proof -
  assume a: "CHR ''/'' \<notin> set p"
  have 1: "dropWhile (\<lambda>c. c = CHR ''/'') (rev p) = rev p"
    using a by (cases "rev p") (auto simp: dropWhile_eq_Cons_conv)
  have 2: "takeWhile (\<lambda>c. c \<noteq> CHR ''/'') (rev p) = rev p"
    using a by (auto simp: takeWhile_eq_all_conv)
  show ?thesis by (simp add: lastPortion_def 1 2)
qed

lemma extname_suffix_lastPortion: "suffix (extname p) (lastPortion p)"
proof -
  let ?part = "lastPortion p"
  let ?tw = "takeWhile (\<lambda>c. c \<noteq> CHR ''.'') (rev ?part)"
  let ?dw = "dropWhile (\<lambda>c. c \<noteq> CHR ''.'') (rev ?part)"
  have split: "rev ?part = ?tw @ ?dw" by simp
  show ?thesis
  proof (cases "CHR ''.'' \<in> set ?part")
    case False
    then show ?thesis by (simp add: extname_def Let_def)
  next
    case True
    then have "?dw \<noteq> []" by (auto simp: dropWhile_eq_Nil_conv)
    then obtain ds where ds: "?dw = CHR ''.'' # ds"
      using hd_dropWhile[of "\<lambda>c. c \<noteq> CHR ''.''" "rev ?part"] by (cases ?dw) auto
    have "?part = rev (?tw @ ?dw)" using split by (metis rev_rev_ident)
    then have "?part = rev ds @ (CHR ''.'' # rev ?tw)" using ds by simp
    then have "suffix (CHR ''.'' # rev ?tw) ?part" by (metis suffixI)
    then show ?thesis by (simp add: extname_def Let_def)
  qed
qed

lemma extname_suffix: "CHR ''/'' \<notin> set p \<Longrightarrow> suffix (extname p) p"
  using extname_suffix_lastPortion[of p] by (simp add: lastPortion_no_slash)

text \<open>
  C5: the default inclusion filter includes a directory entry exactly when its name does
  not start with \<open>.\<close> and is neither \<open>node_modules\<close> nor \<open>out\<close>; it includes a file entry
  only if the extension of its name, a suffix of the name, is among the recognized
  extensions; and for the workspace of scenario A with the extension \<open>.lang\<close>, initialization
  hands exactly \<open>/ws/a.lang\<close> and \<open>/ws/sub/c.lang\<close> to the build.
\<close>

theorem includeNode_default_filter:
  "(isDirectory node \<longrightarrow>
      includeNode node exts =
        (\<not> startsWith (name node) ''.'' \<and> name node \<noteq> ''node_modules'' \<and> name node \<noteq> ''out''))
   \<and> (isFile node \<and> \<not> isDirectory node \<and> includeNode node exts \<longrightarrow>
        extname (name node) \<in> set exts
        \<and> (CHR ''/'' \<notin> set (name node) \<longrightarrow> (\<exists>ext \<in> set exts. suffix ext (name node))))
   \<and> initializeWorkspace 3 scenarioA_services [\<lparr> uri = ''file:///ws'', label = ''ws'' \<rparr>]
        \<lparr> store = (), buildCalls = [] \<rparr>
      = Some (Inr (), \<lparr> store = (),
                        buildCalls = [[[''ws'', ''a.lang''], [''ws'', ''sub'', ''c.lang'']]] \<rparr>)"
proof (intro conjI impI)
  assume "isDirectory node"
  then show "includeNode node exts =
        (\<not> startsWith (name node) ''.'' \<and> name node \<noteq> ''node_modules'' \<and> name node \<noteq> ''out'')"
    by (simp add: includeNode_def)
next
  assume a: "isFile node \<and> \<not> isDirectory node \<and> includeNode node exts"
  then show e: "extname (name node) \<in> set exts"
    by (simp add: includeNode_def split: if_splits)
  assume "CHR ''/'' \<notin> set (name node)"
  then have "suffix (extname (name node)) (name node)" by (rule extname_suffix)
  with e show "\<exists>ext \<in> set exts. suffix ext (name node)" by blast
next
  show "initializeWorkspace 3 scenarioA_services [\<lparr> uri = ''file:///ws'', label = ''ws'' \<rparr>]
        \<lparr> store = (), buildCalls = [] \<rparr>
      = Some (Inr (), \<lparr> store = (),
                        buildCalls = [[[''ws'', ''a.lang''], [''ws'', ''sub'', ''c.lang'']]] \<rparr>)"
    by code_simp
qed

theorem includeNode_default_filter_witness:
  "isDirectory \<lparr> dirent = \<lparr> dirent_name = ''node_modules'', dirent_type = UV_DIRENT_DIR \<rparr>,
                  isFile = False, isDirectory = True, name = ''node_modules'', container = [''ws''] \<rparr>
   \<and> \<not> includeNode \<lparr> dirent = \<lparr> dirent_name = ''node_modules'', dirent_type = UV_DIRENT_DIR \<rparr>,
                  isFile = False, isDirectory = True, name = ''node_modules'', container = [''ws''] \<rparr>
          [''.lang'']
   \<and> includeNode \<lparr> dirent = \<lparr> dirent_name = ''a.lang'', dirent_type = UV_DIRENT_FILE \<rparr>,
                  isFile = True, isDirectory = False, name = ''a.lang'', container = [''ws''] \<rparr>
          [''.lang'']
   \<and> extname ''a.lang'' = ''.lang''
   \<and> suffix ''.lang'' ''a.lang''"
proof -
  have inc: "includeNode \<lparr> dirent = \<lparr> dirent_name = ''a.lang'', dirent_type = UV_DIRENT_FILE \<rparr>,
                  isFile = True, isDirectory = False, name = ''a.lang'', container = [''ws''] \<rparr>
          [''.lang'']"
    by (simp add: includeNode_def startsWith_def extname_def lastPortion_def)
  show ?thesis
    using inc
      includeNode_default_filter[of
        "\<lparr> dirent = \<lparr> dirent_name = ''node_modules'', dirent_type = UV_DIRENT_DIR \<rparr>,
           isFile = False, isDirectory = True, name = ''node_modules'', container = [''ws''] \<rparr>"
        "[''.lang'']"]
      includeNode_default_filter[of
        "\<lparr> dirent = \<lparr> dirent_name = ''a.lang'', dirent_type = UV_DIRENT_FILE \<rparr>,
           isFile = True, isDirectory = False, name = ''a.lang'', container = [''ws''] \<rparr>"
        "[''.lang'']"]
    by (simp add: extname_def lastPortion_def)
qed

text \<open>
  C9: the default inclusion filter rejects every entry whose name starts with \<open>.\<close>, a file
  with a recognized extension included, and rejects every entry that is neither a file nor
  a directory.
\<close>

theorem includeNode_hidden_and_other:
  "(startsWith (name node) ''.'' \<longrightarrow> \<not> includeNode node exts)
   \<and> (\<not> isFile node \<and> \<not> isDirectory node \<longrightarrow> \<not> includeNode node exts)"
  by (simp add: includeNode_def)

theorem includeNode_hidden_and_other_witness:
  "startsWith ''.hidden.lang'' ''.''
   \<and> extname ''.hidden.lang'' \<in> set [''.lang'']
   \<and> \<not> includeNode \<lparr> dirent = \<lparr> dirent_name = ''.hidden.lang'', dirent_type = UV_DIRENT_FILE \<rparr>,
                      isFile = True, isDirectory = False, name = ''.hidden.lang'', container = [''ws''] \<rparr>
          [''.lang'']
   \<and> \<not> includeNode \<lparr> dirent = \<lparr> dirent_name = ''link.lang'', dirent_type = UV_DIRENT_LINK \<rparr>,
                      isFile = False, isDirectory = False, name = ''link.lang'', container = [''ws''] \<rparr>
          [''.lang'']"
proof -
  have h: "startsWith ''.hidden.lang'' ''.''" by (simp add: startsWith_def)
  have e: "extname ''.hidden.lang'' \<in> set [''.lang'']" by (simp add: extname_def lastPortion_def)
  show ?thesis
    using h e
      includeNode_hidden_and_other[of
        "\<lparr> dirent = \<lparr> dirent_name = ''.hidden.lang'', dirent_type = UV_DIRENT_FILE \<rparr>,
           isFile = True, isDirectory = False, name = ''.hidden.lang'', container = [''ws''] \<rparr>"
        "[''.lang'']"]
      includeNode_hidden_and_other[of
        "\<lparr> dirent = \<lparr> dirent_name = ''link.lang'', dirent_type = UV_DIRENT_LINK \<rparr>,
           isFile = False, isDirectory = False, name = ''link.lang'', container = [''ws''] \<rparr>"
        "[''.lang'']"]
    by simp
qed

section \<open>Directory listings\<close>

text \<open>
  The claim C7, that a listing leaves out the entries that are neither a plain file nor a
  plain directory, fails on a folder with a symbolic link: the link is listed, with both
  flags false.
\<close>

theorem getFolderNodes_excludes_other_kinds_counterexample:
  "getFolderNodes (readdirOf linkTree) [''ws'']
   = Inr [\<lparr> dirent = \<lparr> dirent_name = ''a.lang'', dirent_type = UV_DIRENT_FILE \<rparr>,
            isFile = True, isDirectory = False, name = ''a.lang'', container = [''ws''] \<rparr>,
          \<lparr> dirent = \<lparr> dirent_name = ''link'', dirent_type = UV_DIRENT_LINK \<rparr>,
            isFile = False, isDirectory = False, name = ''link'', container = [''ws''] \<rparr>]"
  by (simp add: getFolderNodes_def readdirOf_def linkTree_def Dirent_isFile_def Dirent_isDirectory_def)

text \<open>
  C7, amended: a listing that succeeds has one entry for every entry storage returned, in
  the same order and of whatever kind; no entry has both \<open>isFile\<close> and \<open>isDirectory\<close> true;
  and both are false exactly for the entries that storage tags as neither a plain file nor
  a plain directory.
\<close>

theorem getFolderNodes_flags:
  assumes "rd folderPath = Inr dirents"
  shows "\<exists>nodes. getFolderNodes rd folderPath = Inr nodes
           \<and> map dirent nodes = dirents
           \<and> (\<forall>e \<in> set nodes. \<not> (isFile e \<and> isDirectory e))
           \<and> (\<forall>e \<in> set nodes.
                 (\<not> isFile e \<and> \<not> isDirectory e)
                 = (dirent_type (dirent e) \<noteq> UV_DIRENT_FILE \<and> dirent_type (dirent e) \<noteq> UV_DIRENT_DIR))"
  using assms
  by (auto simp: getFolderNodes_def Dirent_isFile_def Dirent_isDirectory_def comp_def)

theorem getFolderNodes_flags_witness:
  "readdirOf linkTree [''ws'']
     = Inr [\<lparr> dirent_name = ''a.lang'', dirent_type = UV_DIRENT_FILE \<rparr>,
            \<lparr> dirent_name = ''link'', dirent_type = UV_DIRENT_LINK \<rparr>]
   \<and> (\<exists>nodes. getFolderNodes (readdirOf linkTree) [''ws''] = Inr nodes
         \<and> map dirent nodes = [\<lparr> dirent_name = ''a.lang'', dirent_type = UV_DIRENT_FILE \<rparr>,
                                 \<lparr> dirent_name = ''link'', dirent_type = UV_DIRENT_LINK \<rparr>]
         \<and> map isFile nodes = [True, False] \<and> map isDirectory nodes = [False, False])"
proof -
  have h: "readdirOf linkTree [''ws'']
     = Inr [\<lparr> dirent_name = ''a.lang'', dirent_type = UV_DIRENT_FILE \<rparr>,
            \<lparr> dirent_name = ''link'', dirent_type = UV_DIRENT_LINK \<rparr>]"
    by (simp add: readdirOf_def linkTree_def)
  show ?thesis
    using h getFolderNodes_flags[of "readdirOf linkTree" "[''ws'']", OF h]
    by (auto simp: getFolderNodes_def Dirent_isFile_def Dirent_isDirectory_def)
qed

text \<open>
  C8: every entry of a listing carries the listed location as its container, and the
  entries are the immediate children of the directory at that location, one each and in
  storage order, so that every entry resolves to a location one segment below it.
\<close>

theorem getFolderNodes_immediate_children:
  assumes "getFolderNodes (readdirOf T) folderPath = Inr nodes"
  shows "(\<forall>e \<in> set nodes. container e = folderPath)
         \<and> (\<exists>cs. lookup T folderPath = Some (Directory cs) \<and> map name nodes = map fst cs
                \<and> map (\<lambda>e. resolvePath (container e) (name e)) nodes
                    = map (\<lambda>n. folderPath @ [n]) (map fst cs))"
  using assms
  by (auto simp: getFolderNodes_def readdirOf_def resolvePath_def comp_def
           split: option.splits fsnode.splits sum.splits)

theorem getFolderNodes_immediate_children_witness:
  "getFolderNodes (readdirOf scenarioA_tree) [''ws'', ''sub'']
   = Inr [\<lparr> dirent = \<lparr> dirent_name = ''c.lang'', dirent_type = UV_DIRENT_FILE \<rparr>,
            isFile = True, isDirectory = False, name = ''c.lang'', container = [''ws'', ''sub''] \<rparr>]
   \<and> lookup scenarioA_tree [''ws'', ''sub''] = Some (Directory [(''c.lang'', RegularFile)])"
proof -
  have h: "getFolderNodes (readdirOf scenarioA_tree) [''ws'', ''sub'']
   = Inr [\<lparr> dirent = \<lparr> dirent_name = ''c.lang'', dirent_type = UV_DIRENT_FILE \<rparr>,
            isFile = True, isDirectory = False, name = ''c.lang'', container = [''ws'', ''sub''] \<rparr>]"
    by (simp add: getFolderNodes_def readdirOf_def scenarioA_tree_def Dirent_isFile_def
        Dirent_isDirectory_def)
  show ?thesis
    using h getFolderNodes_immediate_children[OF h] by (simp add: scenarioA_tree_def)
qed

section \<open>The loop, and fuel\<close>

lemma forEach_mono:
  assumes "\<And>e s r. e \<in> set es \<Longrightarrow> body e s = Some r \<Longrightarrow> body' e s = Some r"
    and "forEach body es s = Some r"
  shows "forEach body' es s = Some r"
  using assms
proof (induction es arbitrary: s)
  case Nil
  then show ?case by simp
next
  case (Cons e es)
  from Cons.prems(2) obtain r1 where b: "body e s = Some r1"
    by (cases "body e s") auto
  then have b': "body' e s = Some r1" using Cons.prems(1) by simp
  show ?case
  proof (cases r1)
    case (Inl err)
    with b b' Cons.prems(2) show ?thesis by auto
  next
    case (Inr s1)
    with b Cons.prems(2) have "forEach body es s1 = Some r" by simp
    then have "forEach body' es s1 = Some r"
      using Cons.IH Cons.prems(1) by simp
    with b' Inr show ?thesis by simp
  qed
qed

lemma traverseFolder_fuel_mono:
  "traverseFolder k rd p flt c s = Some r \<Longrightarrow> k \<le> k' \<Longrightarrow> traverseFolder k' rd p flt c s = Some r"
proof (induction k arbitrary: k' p s r)
  case 0
  then show ?case by simp
next
  case (Suc k)
  then obtain j where k': "k' = Suc j" and kj: "k \<le> j" by (cases k') auto
  show ?case
  proof (cases "getFolderNodes rd p")
    case (Inl e)
    with Suc.prems k' show ?thesis by simp
  next
    case (Inr content)
    with Suc.prems have f: "forEach (step k rd p flt c) content s = Some r" by simp
    have "forEach (step j rd p flt c) content s = Some r"
    proof (rule forEach_mono[OF _ f])
      fix e s0 r0
      assume "step k rd p flt c e s0 = Some r0"
      then show "step j rd p flt c e s0 = Some r0"
        using Suc.IH[OF _ kj] by (auto simp: Let_def split: if_splits)
    qed
    with Inr k' show ?thesis by simp
  qed
qed

lemma traverseFolder_fuel_irrelevant:
  assumes "traverseFolder k1 rd p flt c s = Some r1" "traverseFolder k2 rd p flt c s = Some r2"
  shows "r1 = r2"
proof -
  have "traverseFolder (max k1 k2) rd p flt c s = Some r1"
    using assms(1) by (rule traverseFolder_fuel_mono) simp
  moreover have "traverseFolder (max k1 k2) rd p flt c s = Some r2"
    using assms(2) by (rule traverseFolder_fuel_mono) simp
  ultimately show ?thesis by simp
qed

lemma forEach_Inl:
  "forEach body es s = Some (Inl e) \<Longrightarrow> \<exists>x \<in> set es. \<exists>s0. body x s0 = Some (Inl e)"
proof (induction es arbitrary: s)
  case Nil
  then show ?case by simp
next
  case (Cons x es)
  show ?case
  proof (cases "body x s")
    case None
    with Cons.prems show ?thesis by simp
  next
    case (Some r)
    show ?thesis
    proof (cases r)
      case (Inl e')
      with Some Cons.prems have "body x s = Some (Inl e)" by simp
      then show ?thesis by auto
    next
      case (Inr s1)
      with Some Cons.prems have "forEach body es s1 = Some (Inl e)" by simp
      from Cons.IH[OF this] show ?thesis by auto
    qed
  qed
qed

lemma forEach_Inr_each:
  "forEach body es s = Some (Inr s') \<Longrightarrow> x \<in> set es \<Longrightarrow> \<exists>s0 s1. body x s0 = Some (Inr s1)"
proof (induction es arbitrary: s)
  case Nil
  then show ?case by simp
next
  case (Cons y es)
  from Cons.prems(1) obtain s1 where b: "body y s = Some (Inr s1)" and f: "forEach body es s1 = Some (Inr s')"
    by (auto split: option.splits sum.splits)
  show ?case
  proof (cases "x = y")
    case True
    with b show ?thesis by blast
  next
    case False
    with Cons.prems(2) have "x \<in> set es" by simp
    from Cons.IH[OF f this] show ?thesis .
  qed
qed

lemma forEach_not_None:
  "(\<And>x s0. x \<in> set es \<Longrightarrow> body x s0 \<noteq> None) \<Longrightarrow> forEach body es s \<noteq> None"
proof (induction es arbitrary: s)
  case Nil
  then show ?case by simp
next
  case (Cons x es)
  have "body x s \<noteq> None" using Cons.prems by simp
  then obtain r where r: "body x s = Some r" by auto
  show ?case
  proof (cases r)
    case (Inl e)
    with r show ?thesis by simp
  next
    case (Inr s1)
    have "forEach body es s1 \<noteq> None" using Cons.IH Cons.prems by simp
    with r Inr show ?thesis by simp
  qed
qed

lemma getFolderNodes_Inl: "(getFolderNodes rd p = Inl e) = (rd p = Inl e)"
  by (simp add: getFolderNodes_def split: sum.splits)

lemma getFolderNodes_Inr:
  "getFolderNodes rd p = Inr es \<Longrightarrow> \<exists>ds. rd p = Inr ds \<and> map name es = map dirent_name ds"
  by (auto simp: getFolderNodes_def comp_def split: sum.splits)

lemma traverseFolder_Inl_visited:
  "traverseFolder k rd p flt c s = Some (Inl e) \<Longrightarrow> \<exists>d. visits rd flt p d \<and> rd d = Inl e"
proof (induction k arbitrary: p s)
  case 0
  then show ?case by simp
next
  case (Suc k)
  show ?case
  proof (cases "getFolderNodes rd p")
    case (Inl e')
    with Suc.prems have "rd p = Inl e" by (simp add: getFolderNodes_Inl)
    then show ?thesis using visits_root by blast
  next
    case (Inr content)
    with Suc.prems have "forEach (step k rd p flt c) content s = Some (Inl e)" by simp
    from forEach_Inl[OF this] obtain x s0 where
      x: "x \<in> set content" and b: "step k rd p flt c x s0 = Some (Inl e)" by blast
    from b have px: "passes flt x" and dx: "isDirectory x"
      and t: "traverseFolder k rd (resolvePath p (name x)) flt c s0 = Some (Inl e)"
      by (auto simp: Let_def split: if_splits)
    from Suc.IH[OF t] obtain d where "visits rd flt (resolvePath p (name x)) d" "rd d = Inl e"
      by blast
    with visits_step[OF Inr x px dx] show ?thesis by blast
  qed
qed

lemma traverseFolder_Inr_visited:
  "traverseFolder k rd p flt c s = Some (Inr s') \<Longrightarrow> visits rd flt p d \<Longrightarrow> \<exists>ds. rd d = Inr ds"
proof (induction k arbitrary: p s s')
  case 0
  then show ?case by simp
next
  case (Suc k)
  from Suc.prems(1) obtain content where
    g: "getFolderNodes rd p = Inr content"
    and f: "forEach (step k rd p flt c) content s = Some (Inr s')"
    by (cases "getFolderNodes rd p") auto
  from Suc.prems(2) show ?case
  proof (cases rule: visits.cases)
    case visits_root
    with g show ?thesis using getFolderNodes_Inr by blast
  next
    case (visits_step es e)
    with g have e: "e \<in> set content" by simp
    from forEach_Inr_each[OF f e] obtain s0 s1 where
      "step k rd p flt c e s0 = Some (Inr s1)" by blast
    with visits_step have "traverseFolder k rd (resolvePath p (name e)) flt c s0 = Some (Inr s1)"
      by (simp add: Let_def)
    from Suc.IH[OF this visits_step(5)] show ?thesis .
  qed
qed

lemma lookup_append:
  "lookup T (p @ q) = (case lookup T p of None \<Rightarrow> None | Some t \<Rightarrow> lookup t q)"
proof (induction p arbitrary: T)
  case Nil
  then show ?case by simp
next
  case (Cons n p)
  then show ?case by (cases T) (auto split: option.splits)
qed

lemma height_child: "(n, c) \<in> set cs \<Longrightarrow> height c \<le> heightChildren cs"
  by (induction cs) auto

lemma height_map_of: "map_of cs n = Some c \<Longrightarrow> height c \<le> heightChildren cs"
  using height_child map_of_SomeD by fast

lemma height_lookup: "lookup T p = Some t \<Longrightarrow> height t \<le> height T"
proof (induction p arbitrary: T)
  case Nil
  then show ?case by simp
next
  case (Cons n p)
  then obtain cs c where T: "T = Directory cs" and m: "map_of cs n = Some c" and l: "lookup c p = Some t"
    by (cases T) (auto split: option.splits)
  from Cons.IH[OF l] height_map_of[OF m] T show ?case by simp
qed

lemma getFolderNodes_readdirOf:
  "getFolderNodes (readdirOf T) p = Inr es \<Longrightarrow>
     \<exists>cs. lookup T p = Some (Directory cs)
        \<and> es = map (\<lambda>(n, c). \<lparr> dirent = \<lparr> dirent_name = n, dirent_type = typeOf c \<rparr>,
                               isFile = (typeOf c = UV_DIRENT_FILE),
                               isDirectory = (typeOf c = UV_DIRENT_DIR),
                               name = n, container = p \<rparr>) cs"
  by (auto simp: getFolderNodes_def readdirOf_def Dirent_isFile_def Dirent_isDirectory_def
      split: option.splits fsnode.splits sum.splits)

lemma traverseFolder_tree_returns_aux:
  "0 < k \<Longrightarrow> (\<And>t. lookup T p = Some t \<Longrightarrow> height t < k)
     \<Longrightarrow> traverseFolder k (readdirOf T) p flt c s \<noteq> None"
proof (induction k arbitrary: p s)
  case 0
  then show ?case by simp
next
  case (Suc k)
  show ?case
  proof (cases "getFolderNodes (readdirOf T) p")
    case (Inl e)
    then show ?thesis by simp
  next
    case (Inr content)
    from getFolderNodes_readdirOf[OF this] obtain cs where
      l: "lookup T p = Some (Directory cs)" and content: "map name content = map fst cs"
      by (auto simp: comp_def case_prod_beta)
    from Suc.prems(2)[OF l] have h: "heightChildren cs < k" by simp
    have "forEach (step k (readdirOf T) p flt c) content s \<noteq> None"
    proof (rule forEach_not_None)
      fix x s0
      assume "x \<in> set content"
      have "traverseFolder k (readdirOf T) (resolvePath p (name x)) flt c s0 \<noteq> None"
      proof (rule Suc.IH)
        show "0 < k" using h by simp
      next
        fix t
        assume "lookup T (resolvePath p (name x)) = Some t"
        then have "map_of cs (name x) = Some t"
          using l by (simp add: resolvePath_def lookup_append split: option.splits)
        from height_map_of[OF this] h show "height t < k" by simp
      qed
      then show "step k (readdirOf T) p flt c x s0 \<noteq> None"
        by (simp add: Let_def)
    qed
    with Inr show ?thesis by simp
  qed
qed

lemma traverseFolder_tree_returns:
  assumes "height T < k"
  shows "\<exists>r. traverseFolder k (readdirOf T) p flt c s = Some r"
proof -
  have "traverseFolder k (readdirOf T) p flt c s \<noteq> None"
  proof (rule traverseFolder_tree_returns_aux)
    show "0 < k" using assms by simp
  next
    fix t assume "lookup T p = Some t"
    from height_lookup[OF this] assms show "height t < k" by simp
  qed
  then show ?thesis by auto
qed

section \<open>Failing listings\<close>

lemma firstFailure_mem: "firstFailure rs = Some e \<Longrightarrow> Some (Inl e) \<in> set rs"
  by (induction rs rule: firstFailure.induct) auto

lemma firstFailure_exists: "Some (Inl e) \<in> set rs \<Longrightarrow> \<exists>e'. firstFailure rs = Some e'"
  by (induction rs rule: firstFailure.induct) auto

lemma Promise_all_rejects:
  assumes "Some (Inl e) \<in> set rs"
  shows "\<exists>e'. Promise_all rs = Some (Inl e') \<and> Some (Inl e') \<in> set rs"
proof -
  from firstFailure_exists[OF assms] obtain e' where f: "firstFailure rs = Some e'" by blast
  from firstFailure_mem[OF f] f show ?thesis by (auto simp: Promise_all_def)
qed

lemma firstFailure_none: "firstFailure (map (\<lambda>x. Some (Inr x)) xs) = None"
  by (induction xs) auto

lemma allResults_all: "allResults (map (\<lambda>x. Some (Inr x)) xs) = Some xs"
  by (induction xs) auto

lemma Promise_all_fulfilled: "Promise_all (map (\<lambda>x. Some (Inr x)) xs) = Some (Inr xs)"
  by (simp add: Promise_all_def firstFailure_none allResults_all)

lemma traverse_failure:
  assumes "height T < fuel" "visits (readdirOf T) flt root d" "readdirOf T d = Inl e"
  shows "\<exists>e' d'. traverse fuel (readdirOf T) root flt = Some (Inl e')
            \<and> visits (readdirOf T) flt root d' \<and> readdirOf T d' = Inl e'"
proof -
  from traverseFolder_tree_returns[OF assms(1), of root flt push "[]"] obtain r where
    r: "traverseFolder fuel (readdirOf T) root flt push [] = Some r" by blast
  show ?thesis
  proof (cases r)
    case (Inl e')
    with r traverseFolder_Inl_visited[of fuel "readdirOf T" root flt push "[]" e']
    show ?thesis by (auto simp: traverse_def)
  next
    case (Inr s')
    with r traverseFolder_Inr_visited[OF _ assms(2)] assms(3) show ?thesis by fastforce
  qed
qed

text \<open>
  C3: on a directory tree, when a listing that the traversal reaches fails, the traversal
  returns a failure and no locations, the failure being that of a listing it reached; and
  \<open>initializeWorkspace\<close> over a folder whose traversal reaches a failing listing is
  rejected with the failure of a listing reached from one of its folders, and leaves the
  world as it was: \<open>build\<close> has not been called.
\<close>

theorem listing_failure_aborts:
  assumes "height T < fuel"
  shows "(visits (readdirOf T) flt root d \<and> readdirOf T d = Inl e \<longrightarrow>
            (\<exists>e' d'. traverse fuel (readdirOf T) root flt = Some (Inl e')
               \<and> visits (readdirOf T) flt root d' \<and> readdirOf T d' = Inl e'))
       \<and> (fs_readdir sv = readdirOf T \<and> wsf \<in> set folders
           \<and> visits (readdirOf T)
                (Some (\<lambda>node. includeNode node (concat (map fileExtensions (serviceRegistry_all sv)))))
                (hook_getRootFolder sv wsf) d
           \<and> readdirOf T d = Inl e \<longrightarrow>
            (\<exists>e' r d'. initializeWorkspace fuel sv folders w = Some (Inl e', w)
               \<and> r \<in> set folders
               \<and> visits (readdirOf T)
                    (Some (\<lambda>node. includeNode node (concat (map fileExtensions (serviceRegistry_all sv)))))
                    (hook_getRootFolder sv r) d'
               \<and> readdirOf T d' = Inl e'))"
proof (intro conjI impI)
  assume "visits (readdirOf T) flt root d \<and> readdirOf T d = Inl e"
  then show "\<exists>e' d'. traverse fuel (readdirOf T) root flt = Some (Inl e')
               \<and> visits (readdirOf T) flt root d' \<and> readdirOf T d' = Inl e'"
    using traverse_failure[OF assms] by blast
next
  let ?exts = "concat (map fileExtensions (serviceRegistry_all sv))"
  let ?flt = "Some (\<lambda>node. includeNode node ?exts)"
  let ?rs = "map (\<lambda>e. WorkspaceManager_traverseFolder fuel sv e ?exts) (map (hook_getRootFolder sv) folders)"
  assume a: "fs_readdir sv = readdirOf T \<and> wsf \<in> set folders
           \<and> visits (readdirOf T) ?flt (hook_getRootFolder sv wsf) d \<and> readdirOf T d = Inl e"
  then obtain e0 where "traverse fuel (readdirOf T) (hook_getRootFolder sv wsf) ?flt = Some (Inl e0)"
    using traverse_failure[OF assms] by blast
  with a have "Some (Inl e0) \<in> set ?rs"
    by (force simp: WorkspaceManager_traverseFolder_def)
  from Promise_all_rejects[OF this] obtain e' where
    p: "Promise_all ?rs = Some (Inl e')" and m: "Some (Inl e') \<in> set ?rs" by blast
  from m obtain r where r: "r \<in> set folders"
    and t: "traverse fuel (readdirOf T) (hook_getRootFolder sv r) ?flt = Some (Inl e')"
    using a by (auto simp: WorkspaceManager_traverseFolder_def)
  from t obtain d' where "visits (readdirOf T) ?flt (hook_getRootFolder sv r) d'" "readdirOf T d' = Inl e'"
    using traverseFolder_Inl_visited[of fuel "readdirOf T" _ ?flt push "[]" e']
    by (auto simp: traverse_def)
  moreover have "initializeWorkspace fuel sv folders w = Some (Inl e', w)"
    using p by (simp add: initializeWorkspace_def Let_def)
  ultimately show "\<exists>e' r d'. initializeWorkspace fuel sv folders w = Some (Inl e', w)
               \<and> r \<in> set folders
               \<and> visits (readdirOf T) ?flt (hook_getRootFolder sv r) d'
               \<and> readdirOf T d' = Inl e'"
    using r by blast
qed

lemma scenarioD_visits:
  "visits (readdirOf scenarioD_tree) (Some (\<lambda>node. includeNode node [''.lang''])) [''ws''] [''ws'', ''sub'']"
proof -
  let ?e = "\<lparr> dirent = \<lparr> dirent_name = ''sub'', dirent_type = UV_DIRENT_DIR \<rparr>,
            isFile = False, isDirectory = True, name = ''sub'', container = [''ws''] \<rparr>"
  let ?es = "[\<lparr> dirent = \<lparr> dirent_name = ''a.lang'', dirent_type = UV_DIRENT_FILE \<rparr>,
            isFile = True, isDirectory = False, name = ''a.lang'', container = [''ws''] \<rparr>, ?e]"
  have g: "getFolderNodes (readdirOf scenarioD_tree) [''ws''] = Inr ?es"
    by (simp add: getFolderNodes_def readdirOf_def scenarioD_tree_def Dirent_isFile_def
        Dirent_isDirectory_def)
  have "visits (readdirOf scenarioD_tree) (Some (\<lambda>node. includeNode node [''.lang'']))
          [''ws''] (resolvePath [''ws''] (name ?e))"
    by (rule visits_step[OF g _ _ _ visits_root])
       (simp_all add: passes_def includeNode_def startsWith_def)
  then show ?thesis by (simp add: resolvePath_def)
qed

theorem listing_failure_aborts_witness:
  "height scenarioD_tree < 3
   \<and> readdirOf scenarioD_tree [''ws'', ''sub''] = Inl EACCES
   \<and> traverse 3 (readdirOf scenarioD_tree) [''ws''] (Some (\<lambda>node. includeNode node [''.lang'']))
       = Some (Inl EACCES)
   \<and> initializeWorkspace 3 scenarioD_services [\<lparr> uri = ''file:///ws'', label = ''ws'' \<rparr>]
        \<lparr> store = (), buildCalls = [] \<rparr>
      = Some (Inl EACCES, \<lparr> store = (), buildCalls = [] \<rparr>)"
proof -
  have h: "height scenarioD_tree < 3" by (simp add: scenarioD_tree_def)
  have f: "readdirOf scenarioD_tree [''ws'', ''sub''] = Inl EACCES"
    by (simp add: readdirOf_def scenarioD_tree_def)
  have t: "traverse 3 (readdirOf scenarioD_tree) [''ws''] (Some (\<lambda>node. includeNode node [''.lang'']))
       = Some (Inl EACCES)" by code_simp
  have i: "initializeWorkspace 3 scenarioD_services [\<lparr> uri = ''file:///ws'', label = ''ws'' \<rparr>]
        \<lparr> store = (), buildCalls = [] \<rparr>
      = Some (Inl EACCES, \<lparr> store = (), buildCalls = [] \<rparr>)" by code_simp
  show ?thesis
    using h f t i scenarioD_visits
      listing_failure_aborts[OF h, of "Some (\<lambda>node. includeNode node [''.lang''])" "[''ws'']"
        "[''ws'', ''sub'']" EACCES scenarioD_services "\<lparr> uri = ''file:///ws'', label = ''ws'' \<rparr>"
        "[\<lparr> uri = ''file:///ws'', label = ''ws'' \<rparr>]" "\<lparr> store = (), buildCalls = [] \<rparr>"]
    by simp
qed

section \<open>Initialization\<close>

lemma mapCalls_length: "mapCalls f xs st = (ys, st') \<Longrightarrow> length ys = length xs"
  by (induction xs arbitrary: st ys st') (auto split: prod.splits)

lemma documentBuilder_build_calls:
  "documentBuilder_build sv ds w = (r, w') \<Longrightarrow> buildCalls w' = buildCalls w @ [ds]"
  by (auto simp: documentBuilder_build_def split: prod.splits)

text \<open>No run of \<open>initializeWorkspace\<close> calls \<open>build\<close> more than once.\<close>

lemma initializeWorkspace_at_most_once:
  assumes "initializeWorkspace fuel sv folders w = Some (out, w')"
  shows "buildCalls w' = buildCalls w \<or> (\<exists>ds. buildCalls w' = buildCalls w @ [ds])"
  using assms
  by (auto simp: initializeWorkspace_def Let_def
      split: option.splits sum.splits prod.splits dest!: documentBuilder_build_calls)

text \<open>
  C2: when the traversals of all roots return their locations and the hook is fulfilled,
  \<open>initializeWorkspace\<close> calls \<open>build\<close> once, on the documents of the locations found
  (roots in the order of the folders, each root in traversal order) followed by the
  documents of the hook; the hook runs on the state left by creating those documents, and
  the build on the state left by the hook.
\<close>

theorem initializeWorkspace_builds_once:
  assumes trav: "map (\<lambda>r. traverse fuel (fs_readdir sv) (hook_getRootFolder sv r)
                        (Some (\<lambda>node. includeNode node
                                 (concat (map fileExtensions (serviceRegistry_all sv))))))
                   folders
                 = map (\<lambda>us. Some (Inr us)) results"
      and docs: "mapCalls (getOrCreateDocument sv) (concat results) (store w) = (documents, st1)"
      and hook: "hook_loadAdditionalDocuments sv folders st1 = (Inr extra, st2)"
      and build: "documentBuilder_outcome sv (documents @ extra) st2 = (r, st3)"
  shows "initializeWorkspace fuel sv folders w
           = Some (r, \<lparr> store = st3, buildCalls = buildCalls w @ [documents @ extra] \<rparr>)
         \<and> length documents = length (concat results)"
proof -
  let ?exts = "concat (map fileExtensions (serviceRegistry_all sv))"
  have "map (\<lambda>e. WorkspaceManager_traverseFolder fuel sv e ?exts) (map (hook_getRootFolder sv) folders)
          = map (\<lambda>us. Some (Inr us)) results"
    using trav by (simp add: WorkspaceManager_traverseFolder_def comp_def)
  then have p: "Promise_all (map (\<lambda>e. WorkspaceManager_traverseFolder fuel sv e ?exts)
                   (map (hook_getRootFolder sv) folders)) = Some (Inr results)"
    by (simp only: Promise_all_fulfilled)
  have "initializeWorkspace fuel sv folders w
           = Some (r, \<lparr> store = st3, buildCalls = buildCalls w @ [documents @ extra] \<rparr>)"
    unfolding initializeWorkspace_def Let_def p
    by (simp add: docs hook build documentBuilder_build_def)
  with mapCalls_length[OF docs] show ?thesis by simp
qed

theorem initializeWorkspace_builds_once_witness:
  "map (\<lambda>r. traverse 3 (fs_readdir scenarioBC_services) (hook_getRootFolder scenarioBC_services r)
                        (Some (\<lambda>node. includeNode node
                                 (concat (map fileExtensions (serviceRegistry_all scenarioBC_services))))))
         [\<lparr> uri = ''file:///ws1'', label = ''one'' \<rparr>, \<lparr> uri = ''file:///ws2'', label = ''two'' \<rparr>]
     = map (\<lambda>us. Some (Inr us)) [[[''ws1'', ''x.lang'']], [[''ws2'', ''lib'', ''y.lang'']]]
   \<and> initializeWorkspace 3 scenarioBC_services
         [\<lparr> uri = ''file:///ws1'', label = ''one'' \<rparr>, \<lparr> uri = ''file:///ws2'', label = ''two'' \<rparr>]
         \<lparr> store = (), buildCalls = [] \<rparr>
       = Some (Inr (), \<lparr> store = (),
                 buildCalls = [[[''ws1'', ''x.lang''], [''ws2'', ''lib'', ''y.lang''], [''builtin'']]] \<rparr>)"
proof -
  have trav: "map (\<lambda>r. traverse 3 (fs_readdir scenarioBC_services) (hook_getRootFolder scenarioBC_services r)
                        (Some (\<lambda>node. includeNode node
                                 (concat (map fileExtensions (serviceRegistry_all scenarioBC_services))))))
         [\<lparr> uri = ''file:///ws1'', label = ''one'' \<rparr>, \<lparr> uri = ''file:///ws2'', label = ''two'' \<rparr>]
     = map (\<lambda>us. Some (Inr us)) [[[''ws1'', ''x.lang'']], [[''ws2'', ''lib'', ''y.lang'']]]"
    by code_simp
  have docs: "mapCalls (getOrCreateDocument scenarioBC_services)
                (concat [[[''ws1'', ''x.lang'']], [[''ws2'', ''lib'', ''y.lang'']]])
                (store \<lparr> store = (), buildCalls = ([] :: URI list list) \<rparr>)
              = ([[''ws1'', ''x.lang''], [''ws2'', ''lib'', ''y.lang'']], ())"
    by (simp add: scenarioBC_services_def scenarioA_services_def)
  have hook: "hook_loadAdditionalDocuments scenarioBC_services
                [\<lparr> uri = ''file:///ws1'', label = ''one'' \<rparr>, \<lparr> uri = ''file:///ws2'', label = ''two'' \<rparr>] ()
              = (Inr [[''builtin'']], ())"
    by (simp add: scenarioBC_services_def scenarioA_services_def)
  have build: "documentBuilder_outcome scenarioBC_services
                 ([[''ws1'', ''x.lang''], [''ws2'', ''lib'', ''y.lang'']] @ [[''builtin'']]) ()
               = (Inr (), ())"
    by (simp add: scenarioBC_services_def scenarioA_services_def)
  show ?thesis
    using trav initializeWorkspace_builds_once[OF trav docs hook build] by simp
qed

section \<open>The course of a traversal: facts\<close>

lemma forEach_walk:
  assumes IH: "\<And>q s s'. traverseFolder k rd q flt push s = Some (Inr s') \<Longrightarrow>
                 \<exists>es us. getFolderNodes rd q = Inr es \<and> walkEntries rd flt q es us \<and> s' = s @ us"
  shows "forEach (step k rd p flt push) es s = Some (Inr s') \<Longrightarrow>
           \<exists>us. walkEntries rd flt p es us \<and> s' = s @ us"
proof (induction es arbitrary: s)
  case Nil
  then show ?case by (auto intro: walk_done)
next
  case (Cons e es)
  from Cons.prems obtain s1 where
    b: "step k rd p flt push e s = Some (Inr s1)"
    and f: "forEach (step k rd p flt push) es s1 = Some (Inr s')"
    by (auto split: option.splits sum.splits)
  from Cons.IH[OF f] obtain us2 where w2: "walkEntries rd flt p es us2" and s': "s' = s1 @ us2"
    by blast
  show ?case
  proof (cases "passes flt e")
    case False
    with b have "s1 = s" by simp
    with walk_skip[OF False w2] s' show ?thesis by blast
  next
    case True
    show ?thesis
    proof (cases "isDirectory e")
      case d: True
      with True b have "traverseFolder k rd (resolvePath p (name e)) flt push s = Some (Inr s1)"
        by (simp add: Let_def)
      from IH[OF this] obtain es' us1 where
        g: "getFolderNodes rd (resolvePath p (name e)) = Inr es'"
        and w1: "walkEntries rd flt (resolvePath p (name e)) es' us1" and s1: "s1 = s @ us1"
        by blast
      from walk_dir[OF True d g w1 w2] s' s1 show ?thesis by auto
    next
      case nd: False
      show ?thesis
      proof (cases "isFile e")
        case True
        with \<open>passes flt e\<close> nd b have "s1 = s @ [resolvePath p (name e)]"
          by (simp add: Let_def push_def)
        with walk_file[OF \<open>passes flt e\<close> nd True w2] s' show ?thesis by auto
      next
        case False
        with \<open>passes flt e\<close> nd b have "s1 = s" by (simp add: Let_def)
        with walk_other[OF \<open>passes flt e\<close> nd False w2] s' show ?thesis by blast
      qed
    qed
  qed
qed

lemma traverseFolder_walk:
  "traverseFolder k rd p flt push s = Some (Inr s') \<Longrightarrow>
     \<exists>es us. getFolderNodes rd p = Inr es \<and> walkEntries rd flt p es us \<and> s' = s @ us"
proof (induction k arbitrary: p s s')
  case 0
  then show ?case by simp
next
  case (Suc k)
  from Suc.prems obtain content where
    g: "getFolderNodes rd p = Inr content"
    and f: "forEach (step k rd p flt push) content s = Some (Inr s')"
    by (cases "getFolderNodes rd p") auto
  from forEach_walk[OF Suc.IH f] g show ?case by blast
qed

lemma traverse_walk:
  "traverse k rd p flt = Some (Inr uris) \<Longrightarrow>
     \<exists>es. getFolderNodes rd p = Inr es \<and> walkEntries rd flt p es uris"
  using traverseFolder_walk[of k rd p flt "[]" uris] by (auto simp: traverse_def)

lemma same_child: "prefix (p @ [a]) u \<Longrightarrow> prefix (p @ [b]) u \<Longrightarrow> a = b"
  by (auto simp: prefix_def)

lemma child_between:
  "prefix p d \<Longrightarrow> d \<noteq> p \<Longrightarrow> prefix d u \<Longrightarrow> prefix (p @ [m]) u \<Longrightarrow> prefix (p @ [m]) d"
  by (auto simp: prefix_def Cons_eq_append_conv append_eq_append_conv2 append_eq_Cons_conv)

lemma prefix_same_length: "prefix p d \<Longrightarrow> prefix (d @ [n]) (p @ [m]) \<Longrightarrow> d = p \<and> n = m"
proof -
  assume a: "prefix p d" and b: "prefix (d @ [n]) (p @ [m])"
  from a have "length p \<le> length d" by (rule prefix_length_le)
  moreover from b have "length (d @ [n]) \<le> length (p @ [m])" by (rule prefix_length_le)
  ultimately have "length d = length p" by simp
  with a have "d = p" by (auto simp: prefix_def)
  with b show ?thesis by (auto simp: prefix_def)
qed

lemma walk_prefix:
  "walkEntries rd flt p es us \<Longrightarrow> u \<in> set us \<Longrightarrow>
     \<exists>e \<in> set es. passes flt e \<and> prefix (p @ [name e]) u"
proof (induction arbitrary: u rule: walkEntries.induct)
  case (walk_dir e p es' us1 es us2)
  from walk_dir.prems have "u \<in> set us1 \<or> u \<in> set us2" by simp
  then show ?case
  proof
    assume "u \<in> set us1"
    from walk_dir.IH(1)[OF this] obtain e' :: FileSystemNode where
      "prefix (resolvePath p (name e) @ [name e']) u" by blast
    then have "prefix (p @ [name e]) u"
      by (metis append_prefixD resolvePath_def)
    with walk_dir.hyps(1) show ?thesis by auto
  next
    assume "u \<in> set us2"
    from walk_dir.IH(2)[OF this] show ?thesis by auto
  qed
qed (auto simp: resolvePath_def)

lemma walk_below:
  assumes "walkEntries rd flt q es us" "u \<in> set us"
  shows "prefix q u"
proof -
  from walk_prefix[OF assms] obtain e :: FileSystemNode where "prefix (q @ [name e]) u" by blast
  then show ?thesis by (rule append_prefixD)
qed

lemma walk_entry_name:
  assumes "walkEntries rd flt p es us" "u \<in> set us" "prefix (p @ [n]) u"
  shows "n \<in> set (map name es)"
proof -
  from walk_prefix[OF assms(1,2)] obtain e where e: "e \<in> set es" "prefix (p @ [name e]) u" by blast
  from same_child[OF e(2) assms(3)] e(1) have "n \<in> name ` set es" by (metis imageI)
  then show ?thesis by simp
qed

lemma walk_distinct:
  assumes dn: "distinctNames rd"
  shows "walkEntries rd flt p es us \<Longrightarrow> distinct (map name es) \<Longrightarrow> distinct us"
proof (induction rule: walkEntries.induct)
  case (walk_dir e p es' us1 es us2)
  from getFolderNodes_Inr[OF walk_dir.hyps(3)] dn have "distinct (map name es')"
    by (auto simp: distinctNames_def)
  then have d1: "distinct us1" by (rule walk_dir.IH(1))
  have d2: "distinct us2" using walk_dir.IH(2) walk_dir.prems by simp
  have "set us1 \<inter> set us2 = {}"
  proof (rule ccontr)
    assume "set us1 \<inter> set us2 \<noteq> {}"
    then obtain u where u1: "u \<in> set us1" and u2: "u \<in> set us2" by blast
    from walk_below[OF walk_dir.hyps(4) u1]
    have a: "prefix (p @ [name e]) u" by (simp add: resolvePath_def)
    from walk_prefix[OF walk_dir.hyps(5) u2] obtain e'' where
      e'': "e'' \<in> set es" and b: "prefix (p @ [name e'']) u" by blast
    from same_child[OF a b] e'' have "name e \<in> name ` set es" by (metis imageI)
    with walk_dir.prems show False by simp
  qed
  with d1 d2 show ?case by simp
next
  case (walk_file e p es us)
  have "resolvePath p (name e) \<notin> set us"
  proof
    assume "resolvePath p (name e) \<in> set us"
    from walk_prefix[OF walk_file.hyps(4) this] obtain e'' where
      e'': "e'' \<in> set es" and b: "prefix (p @ [name e'']) (resolvePath p (name e))" by blast
    have "prefix (p @ [name e]) (resolvePath p (name e))" by (simp add: resolvePath_def)
    from same_child[OF b this] e'' have "name e \<in> name ` set es" by (metis imageI)
    with walk_file.prems show False by simp
  qed
  with walk_file show ?case by simp
qed auto

section \<open>Directory trees and their listings\<close>

lemma wellFormed_child: "(n, c) \<in> set cs \<Longrightarrow> wellFormedChildren cs \<Longrightarrow> wellFormed c"
  by (induction cs) auto

lemma wellFormed_lookup: "wellFormed T \<Longrightarrow> lookup T p = Some t \<Longrightarrow> wellFormed t"
proof (induction p arbitrary: T)
  case Nil
  then show ?case by simp
next
  case (Cons n p)
  then obtain cs c where T: "T = Directory cs" and m: "map_of cs n = Some c" and l: "lookup c p = Some t"
    by (cases T) (auto split: option.splits)
  from m have "(n, c) \<in> set cs" by (rule map_of_SomeD)
  with Cons.prems(1) T have "wellFormed c" using wellFormed_child by auto
  from Cons.IH[OF this l] show ?case .
qed

lemma readable_child: "(n, c) \<in> set cs \<Longrightarrow> readableChildren cs \<Longrightarrow> readable c"
  by (induction cs) auto

lemma readdirOf_names:
  "readdirOf T d = Inr ds \<Longrightarrow> \<exists>cs. lookup T d = Some (Directory cs) \<and> map dirent_name ds = map fst cs"
  by (auto simp: readdirOf_def comp_def case_prod_beta split: option.splits fsnode.splits)

lemma wellFormed_distinctNames: "wellFormed T \<Longrightarrow> distinctNames (readdirOf T)"
  unfolding distinctNames_def
proof (intro allI impI)
  fix d ds
  assume wf: "wellFormed T" and "readdirOf T d = Inr ds"
  from readdirOf_names[OF this(2)] obtain cs where
    l: "lookup T d = Some (Directory cs)" and m: "map dirent_name ds = map fst cs" by blast
  from wellFormed_lookup[OF wf l] m show "distinct (map dirent_name ds)" by simp
qed

lemma tree_listing_distinct:
  assumes "wellFormed T" "getFolderNodes (readdirOf T) d = Inr es"
  shows "distinct (map name es)"
  using getFolderNodes_Inr[OF assms(2)] wellFormed_distinctNames[OF assms(1)]
  by (auto simp: distinctNames_def)

lemma same_name_same_entry:
  assumes "distinct (map name es)" "e \<in> set es" "e' \<in> set es" "name e' = name e"
  shows "e' = e"
  using assms by (meson distinct_map inj_onD)

lemma entry_lookup:
  assumes wf: "wellFormed T" and g: "getFolderNodes (readdirOf T) p = Inr es" and e: "e \<in> set es"
  shows "\<exists>c. lookup T (p @ [name e]) = Some c \<and> wellFormed c
            \<and> isFile e = (c = RegularFile) \<and> isDirectory e = (typeOf c = UV_DIRENT_DIR)"
proof -
  from getFolderNodes_readdirOf[OF g] obtain cs where
    l: "lookup T p = Some (Directory cs)"
    and es: "es = map (\<lambda>(n, c). \<lparr> dirent = \<lparr> dirent_name = n, dirent_type = typeOf c \<rparr>,
                               isFile = (typeOf c = UV_DIRENT_FILE),
                               isDirectory = (typeOf c = UV_DIRENT_DIR),
                               name = n, container = p \<rparr>) cs" by blast
  from e es obtain n c where nc: "(n, c) \<in> set cs" and en: "name e = n"
    and ef: "isFile e = (typeOf c = UV_DIRENT_FILE)" and ed: "isDirectory e = (typeOf c = UV_DIRENT_DIR)"
    by auto
  from wellFormed_lookup[OF wf l] have dist: "distinct (map fst cs)" and wfc: "wellFormedChildren cs"
    by simp_all
  from dist nc have m: "map_of cs n = Some c" by simp
  from wellFormed_child[OF nc wfc] have wc: "wellFormed c" .
  then have "(typeOf c = UV_DIRENT_FILE) = (c = RegularFile)" by (cases c) auto
  with l m en ef ed wc show ?thesis by (simp add: lookup_append)
qed

lemma lookup_entry:
  assumes g: "getFolderNodes (readdirOf T) p = Inr es" and l: "lookup T (p @ [n]) = Some c"
  shows "\<exists>e \<in> set es. name e = n"
proof -
  from getFolderNodes_readdirOf[OF g] obtain cs where
    lp: "lookup T p = Some (Directory cs)" and names: "map name es = map fst cs"
    by (auto simp: comp_def case_prod_beta)
  from l lp have "map_of cs n = Some c" by (simp add: lookup_append split: option.splits)
  then have "n \<in> fst ` set cs" by (metis map_of_SomeD fst_conv imageI)
  then have "n \<in> set (map name es)" using names by simp
  then show ?thesis by auto
qed

lemma lookup_RegularFile:
  "lookup c q = Some RegularFile \<Longrightarrow> (c = RegularFile \<and> q = []) \<or> (\<exists>cs. c = Directory cs \<and> q \<noteq> [])"
  by (cases q; cases c) auto

lemma scenarioA_wellFormed: "wellFormed scenarioA_tree"
  by (simp add: scenarioA_tree_def)

lemma scenarioA_listing:
  "getFolderNodes (readdirOf scenarioA_tree) [''ws'']
     = Inr ([entryOf [''ws''] ''a.lang'' UV_DIRENT_FILE, entryOf [''ws''] ''b.txt'' UV_DIRENT_FILE]
            @ entryOf [''ws''] ''sub'' UV_DIRENT_DIR
            # [entryOf [''ws''] ''node_modules'' UV_DIRENT_DIR])"
  by (simp add: getFolderNodes_def readdirOf_def scenarioA_tree_def entryOf_def
      Dirent_isFile_def Dirent_isDirectory_def)

lemma scenarioA_unfiltered:
  "traverse 4 (readdirOf scenarioA_tree) [''ws''] None
     = Some (Inr [[''ws'', ''a.lang''], [''ws'', ''b.txt''], [''ws'', ''sub'', ''c.lang''],
                  [''ws'', ''node_modules'', ''d.lang'']])"
  by code_simp

section \<open>An unfiltered traversal finds the files\<close>

lemma walk_sound:
  assumes wf: "wellFormed T"
  shows "walkEntries (readdirOf T) flt p es us
     \<Longrightarrow> \<exists>es0. getFolderNodes (readdirOf T) p = Inr es0 \<and> set es \<subseteq> set es0
     \<Longrightarrow> u \<in> set us \<Longrightarrow> lookup T u = Some RegularFile"
proof (induction arbitrary: u rule: walkEntries.induct)
  case (walk_done p)
  then show ?case by simp
next
  case (walk_skip e p es us)
  from walk_skip.prems(1) have "\<exists>es0. getFolderNodes (readdirOf T) p = Inr es0 \<and> set es \<subseteq> set es0"
    by auto
  from walk_skip.IH[OF this walk_skip.prems(2)] show ?case .
next
  case (walk_other e p es us)
  from walk_other.prems(1) have "\<exists>es0. getFolderNodes (readdirOf T) p = Inr es0 \<and> set es \<subseteq> set es0"
    by auto
  from walk_other.IH[OF this walk_other.prems(2)] show ?case .
next
  case (walk_file e p es us)
  from walk_file.prems(1) obtain es0 where
    g: "getFolderNodes (readdirOf T) p = Inr es0" and e: "e \<in> set es0" and sub: "set es \<subseteq> set es0"
    by auto
  show ?case
  proof (cases "u \<in> set us")
    case True
    from g sub have "\<exists>es0. getFolderNodes (readdirOf T) p = Inr es0 \<and> set es \<subseteq> set es0" by blast
    from walk_file.IH[OF this True] show ?thesis .
  next
    case False
    with walk_file.prems(2) have u: "u = p @ [name e]" by (simp add: resolvePath_def)
    from entry_lookup[OF wf g e] walk_file.hyps(3) u show ?thesis by auto
  qed
next
  case (walk_dir e p es' us1 es us2)
  show ?case
  proof (cases "u \<in> set us1")
    case True
    from walk_dir.hyps(3) have "\<exists>es0. getFolderNodes (readdirOf T) (resolvePath p (name e)) = Inr es0
                                   \<and> set es' \<subseteq> set es0" by blast
    from walk_dir.IH(1)[OF this True] show ?thesis .
  next
    case False
    with walk_dir.prems(2) have u2: "u \<in> set us2" by simp
    from walk_dir.prems(1) have "\<exists>es0. getFolderNodes (readdirOf T) p = Inr es0 \<and> set es \<subseteq> set es0"
      by auto
    from walk_dir.IH(2)[OF this u2] show ?thesis .
  qed
qed

lemma walk_complete:
  assumes wf: "wellFormed T" and every: "\<And>e. passes flt e"
    and f: "lookup T u = Some RegularFile"
  shows "walkEntries (readdirOf T) flt p es us
     \<Longrightarrow> \<exists>es0. getFolderNodes (readdirOf T) p = Inr es0 \<and> set es \<subseteq> set es0
     \<Longrightarrow> e0 \<in> set es \<Longrightarrow> prefix (p @ [name e0]) u \<Longrightarrow> u \<in> set us"
proof (induction arbitrary: e0 rule: walkEntries.induct)
  case (walk_done p)
  then show ?case by simp
next
  case (walk_skip e p es us)
  with every show ?case by simp
next
  case (walk_other e p es us)
  from walk_other.prems(1) obtain es0 where
    g: "getFolderNodes (readdirOf T) p = Inr es0" and e: "e \<in> set es0" and sub: "set es \<subseteq> set es0"
    by auto
  show ?case
  proof (cases "name e0 = name e")
    case True
    with walk_other.prems(3) obtain q where u: "u = (p @ [name e]) @ q" by (auto simp: prefix_def)
    from entry_lookup[OF wf g e] walk_other.hyps(2,3) obtain c where
      c: "lookup T (p @ [name e]) = Some c" "c \<noteq> RegularFile" "typeOf c \<noteq> UV_DIRENT_DIR" by auto
    from f u c(1) have "lookup c q = Some RegularFile" by (simp only: lookup_append option.case)
    from lookup_RegularFile[OF this] c(2,3) show ?thesis by auto
  next
    case False
    with walk_other.prems(2) have e0: "e0 \<in> set es" by auto
    from g sub have "\<exists>es0. getFolderNodes (readdirOf T) p = Inr es0 \<and> set es \<subseteq> set es0" by blast
    from walk_other.IH[OF this e0 walk_other.prems(3)] show ?thesis .
  qed
next
  case (walk_file e p es us)
  from walk_file.prems(1) obtain es0 where
    g: "getFolderNodes (readdirOf T) p = Inr es0" and e: "e \<in> set es0" and sub: "set es \<subseteq> set es0"
    by auto
  show ?case
  proof (cases "name e0 = name e")
    case True
    with walk_file.prems(3) obtain q where u: "u = (p @ [name e]) @ q" by (auto simp: prefix_def)
    from entry_lookup[OF wf g e] walk_file.hyps(3) have
      c: "lookup T (p @ [name e]) = Some RegularFile" by auto
    from f u c have "lookup RegularFile q = Some RegularFile" by (simp only: lookup_append option.case)
    then have "q = []" by (cases q) auto
    with u show ?thesis by (simp add: resolvePath_def)
  next
    case False
    with walk_file.prems(2) have e0: "e0 \<in> set es" by auto
    from g sub have "\<exists>es0. getFolderNodes (readdirOf T) p = Inr es0 \<and> set es \<subseteq> set es0" by blast
    from walk_file.IH[OF this e0 walk_file.prems(3)] show ?thesis by simp
  qed
next
  case (walk_dir e p es' us1 es us2)
  from walk_dir.prems(1) obtain es0 where
    g: "getFolderNodes (readdirOf T) p = Inr es0" and e: "e \<in> set es0" and sub: "set es \<subseteq> set es0"
    by auto
  show ?case
  proof (cases "name e0 = name e")
    case True
    let ?p' = "resolvePath p (name e)"
    from True walk_dir.prems(3) obtain q where u: "u = ?p' @ q"
      by (auto simp: prefix_def resolvePath_def)
    from entry_lookup[OF wf g e] walk_dir.hyps(2) obtain c where
      c: "lookup T ?p' = Some c" "typeOf c = UV_DIRENT_DIR" by (auto simp: resolvePath_def)
    from f u c(1) have lq: "lookup c q = Some RegularFile" by (simp only: lookup_append option.case)
    from lookup_RegularFile[OF lq] c(2) obtain cs where cs: "c = Directory cs" and "q \<noteq> []" by auto
    then obtain m q' where q: "q = m # q'" by (cases q) auto
    from lq cs q obtain c' where "map_of cs m = Some c'" by (auto split: option.splits)
    with c(1) cs have "lookup T (?p' @ [m]) = Some c'" by (simp add: lookup_append)
    from lookup_entry[OF walk_dir.hyps(3) this] obtain e1 where
      e1: "e1 \<in> set es'" "name e1 = m" by blast
    have pre: "prefix (?p' @ [name e1]) u" using u q e1(2) by simp
    from walk_dir.hyps(3) have "\<exists>es0. getFolderNodes (readdirOf T) ?p' = Inr es0 \<and> set es' \<subseteq> set es0"
      by blast
    from walk_dir.IH(1)[OF this e1(1) pre] show ?thesis by simp
  next
    case False
    with walk_dir.prems(2) have e0: "e0 \<in> set es" by auto
    from g sub have "\<exists>es0. getFolderNodes (readdirOf T) p = Inr es0 \<and> set es \<subseteq> set es0" by blast
    from walk_dir.IH(2)[OF this e0 walk_dir.prems(3)] show ?thesis by simp
  qed
qed

lemma visits_directory:
  assumes wf: "wellFormed T"
  shows "visits (readdirOf T) flt p d
           \<Longrightarrow> \<exists>cs. lookup T p = Some (Directory cs) \<and> readable (Directory cs)
           \<Longrightarrow> \<exists>cs. lookup T d = Some (Directory cs) \<and> readable (Directory cs)"
proof (induction rule: visits.induct)
  case (visits_root p)
  then show ?case .
next
  case (visits_step p es e d)
  from visits_step.prems obtain cs where
    cs: "lookup T p = Some (Directory cs)" and r: "readableChildren cs" by auto
  from entry_lookup[OF wf visits_step.hyps(1,2)] visits_step.hyps(4) obtain c where
    c: "lookup T (p @ [name e]) = Some c" "typeOf c = UV_DIRENT_DIR" "wellFormed c"
    by auto
  from c(1) cs have "map_of cs (name e) = Some c"
    by (simp add: lookup_append split: option.splits)
  then have "(name e, c) \<in> set cs" by (rule map_of_SomeD)
  from readable_child[OF this r] c(2,3) have "\<exists>cs'. c = Directory cs' \<and> readable (Directory cs')"
    by (cases c) auto
  with c(1) have "\<exists>cs'. lookup T (resolvePath p (name e)) = Some (Directory cs')
                      \<and> readable (Directory cs')"
    by (simp add: resolvePath_def)
  then show ?case by (rule visits_step.IH)
qed

lemma traverse_succeeds:
  assumes wf: "wellFormed T" and fuel: "height T < fuel"
    and root: "lookup T root = Some (Directory cs)" and rd: "readable (Directory cs)"
  shows "\<exists>uris. traverse fuel (readdirOf T) root flt = Some (Inr uris)"
proof -
  from traverseFolder_tree_returns[OF fuel, of root flt push "[]"] obtain r where
    r: "traverse fuel (readdirOf T) root flt = Some r" by (auto simp: traverse_def)
  show ?thesis
  proof (cases r)
    case (Inr uris)
    with r show ?thesis by simp
  next
    case (Inl e)
    with r have "traverseFolder fuel (readdirOf T) root flt push [] = Some (Inl e)"
      by (simp add: traverse_def)
    from traverseFolder_Inl_visited[OF this] obtain d where
      v: "visits (readdirOf T) flt root d" and e: "readdirOf T d = Inl e" by blast
    from root rd have "\<exists>cs. lookup T root = Some (Directory cs) \<and> readable (Directory cs)"
      by blast
    from visits_directory[OF wf v this] obtain cs' where "lookup T d = Some (Directory cs')"
      by blast
    with e show ?thesis by (simp add: readdirOf_def)
  qed
qed

text \<open>
  C1: for every directory tree, every directory \<open>root\<close> in it below which all listings
  succeed, and every fuel above the height of the tree, \<open>traverse\<close> from \<open>root\<close> with
  the always-true filter returns locations without repetition, which are exactly the
  locations of the regular files below \<open>root\<close>; none of them is the location of a
  directory.
\<close>

theorem traverse_all_files:
  assumes wf: "wellFormed T" and fuel: "height T < fuel"
    and root: "lookup T root = Some (Directory cs)" and rd: "readable (Directory cs)"
  shows "\<exists>uris. traverse fuel (readdirOf T) root (Some (\<lambda>node. True)) = Some (Inr uris)
           \<and> distinct uris
           \<and> set uris = {u. strict_prefix root u \<and> lookup T u = Some RegularFile}
           \<and> (\<forall>u \<in> set uris. \<forall>cs'. lookup T u \<noteq> Some (Directory cs'))"
proof -
  let ?flt = "Some (\<lambda>node. True) :: FileSystemFilter option"
  from traverse_succeeds[OF wf fuel root rd] obtain uris where
    t: "traverse fuel (readdirOf T) root ?flt = Some (Inr uris)" by blast
  from traverse_walk[OF t] obtain es where
    g: "getFolderNodes (readdirOf T) root = Inr es"
    and w: "walkEntries (readdirOf T) ?flt root es uris" by blast
  have g0: "\<exists>es0. getFolderNodes (readdirOf T) root = Inr es0 \<and> set es \<subseteq> set es0"
    using g by blast
  from getFolderNodes_Inr[OF g] wellFormed_distinctNames[OF wf]
  have "distinct (map name es)" by (auto simp: distinctNames_def)
  with walk_distinct[OF wellFormed_distinctNames[OF wf] w] have d: "distinct uris" by simp
  have sound: "lookup T u = Some RegularFile \<and> strict_prefix root u" if "u \<in> set uris" for u
  proof -
    from walk_sound[OF wf w g0 that] have l: "lookup T u = Some RegularFile" .
    from walk_below[OF w that] have "prefix root u" .
    moreover from l root have "u \<noteq> root" by auto
    ultimately show ?thesis using l by (simp add: strict_prefix_def)
  qed
  have complete: "u \<in> set uris" if "strict_prefix root u" "lookup T u = Some RegularFile" for u
  proof -
    from that(1) obtain m q where u: "u = root @ m # q"
      by (auto simp: strict_prefix_def prefix_def) (metis list.exhaust append_Nil2)
    from that(2) u have "lookup T ((root @ [m]) @ q) = Some RegularFile" by simp
    then obtain c where "lookup T (root @ [m]) = Some c"
      by (simp only: lookup_append[of T "root @ [m]" q] split: option.splits)
    from lookup_entry[OF g this] obtain e0 where e0: "e0 \<in> set es" "name e0 = m" by blast
    have "prefix (root @ [name e0]) u" using u e0(2) by simp
    from walk_complete[OF wf _ that(2) w g0 e0(1) this] show ?thesis by (simp add: passes_def)
  qed
  from sound complete have s: "set uris = {u. strict_prefix root u \<and> lookup T u = Some RegularFile}"
    by blast
  have "\<forall>u \<in> set uris. \<forall>cs'. lookup T u \<noteq> Some (Directory cs')" using sound by auto
  with t d s show ?thesis by blast
qed

theorem traverse_all_files_witness:
  "wellFormed scenarioA_tree \<and> height scenarioA_tree < 4
   \<and> lookup scenarioA_tree [''ws'']
       = Some (Directory [(''a.lang'', RegularFile), (''b.txt'', RegularFile),
                          (''sub'', Directory [(''c.lang'', RegularFile)]),
                          (''node_modules'', Directory [(''d.lang'', RegularFile)])])
   \<and> readable (Directory [(''a.lang'', RegularFile), (''b.txt'', RegularFile),
                          (''sub'', Directory [(''c.lang'', RegularFile)]),
                          (''node_modules'', Directory [(''d.lang'', RegularFile)])])
   \<and> traverse 4 (readdirOf scenarioA_tree) [''ws''] (Some (\<lambda>node. True))
       = Some (Inr [[''ws'', ''a.lang''], [''ws'', ''b.txt''], [''ws'', ''sub'', ''c.lang''],
                    [''ws'', ''node_modules'', ''d.lang'']])
   \<and> {u. strict_prefix [''ws''] u \<and> lookup scenarioA_tree u = Some RegularFile}
       = {[''ws'', ''a.lang''], [''ws'', ''b.txt''], [''ws'', ''sub'', ''c.lang''],
          [''ws'', ''node_modules'', ''d.lang'']}"
proof -
  have r: "readable (Directory [(''a.lang'', RegularFile), (''b.txt'', RegularFile),
                          (''sub'', Directory [(''c.lang'', RegularFile)]),
                          (''node_modules'', Directory [(''d.lang'', RegularFile)])])" by simp
  have h: "height scenarioA_tree < 4" by (simp add: scenarioA_tree_def)
  have l: "lookup scenarioA_tree [''ws'']
       = Some (Directory [(''a.lang'', RegularFile), (''b.txt'', RegularFile),
                          (''sub'', Directory [(''c.lang'', RegularFile)]),
                          (''node_modules'', Directory [(''d.lang'', RegularFile)])])"
    by (simp add: scenarioA_tree_def)
  have t: "traverse 4 (readdirOf scenarioA_tree) [''ws''] (Some (\<lambda>node. True))
       = Some (Inr [[''ws'', ''a.lang''], [''ws'', ''b.txt''], [''ws'', ''sub'', ''c.lang''],
                    [''ws'', ''node_modules'', ''d.lang'']])"
    by code_simp
  from traverse_all_files[OF scenarioA_wellFormed h l r] obtain uris where
    u: "traverse 4 (readdirOf scenarioA_tree) [''ws''] (Some (\<lambda>node. True)) = Some (Inr uris)"
    and s: "set uris = {u. strict_prefix [''ws''] u \<and> lookup scenarioA_tree u = Some RegularFile}"
    by blast
  from u have "uris = [[''ws'', ''a.lang''], [''ws'', ''b.txt''], [''ws'', ''sub'', ''c.lang''],
                    [''ws'', ''node_modules'', ''d.lang'']]"
    by (simp only: t option.inject sum.inject)
  then have "set uris = {[''ws'', ''a.lang''], [''ws'', ''b.txt''], [''ws'', ''sub'', ''c.lang''],
          [''ws'', ''node_modules'', ''d.lang'']}"
    by (simp only: list.set)
  with s have c: "{u. strict_prefix [''ws''] u \<and> lookup scenarioA_tree u = Some RegularFile}
       = {[''ws'', ''a.lang''], [''ws'', ''b.txt''], [''ws'', ''sub'', ''c.lang''],
          [''ws'', ''node_modules'', ''d.lang'']}"
    by (simp only:)
  show ?thesis by (intro conjI) (fact scenarioA_wellFormed h l r t c)+
qed

section \<open>Pruning\<close>

lemma walk_pruned:
  "walkEntries rd flt p es us \<Longrightarrow> u \<in> set us \<Longrightarrow> prefix p d \<Longrightarrow> prefix (d @ [n]) u \<Longrightarrow>
     \<exists>e. name e = n \<and> passes flt e
        \<and> (d = p \<longrightarrow> e \<in> set es)
        \<and> (d \<noteq> p \<longrightarrow> (\<exists>esd. getFolderNodes rd d = Inr esd \<and> e \<in> set esd))"
proof (induction arbitrary: u rule: walkEntries.induct)
  case (walk_done p)
  then show ?case by simp
next
  case (walk_skip e p es us)
  from walk_skip.IH[OF walk_skip.prems] obtain e0 where
    "name e0 = n" "passes flt e0" "d = p \<longrightarrow> e0 \<in> set es"
    "d \<noteq> p \<longrightarrow> (\<exists>esd. getFolderNodes rd d = Inr esd \<and> e0 \<in> set esd)" by blast
  then have "name e0 = n \<and> passes flt e0 \<and> (d = p \<longrightarrow> e0 \<in> set (e # es))
        \<and> (d \<noteq> p \<longrightarrow> (\<exists>esd. getFolderNodes rd d = Inr esd \<and> e0 \<in> set esd))" by simp
  then show ?case ..
next
  case (walk_other e p es us)
  from walk_other.IH[OF walk_other.prems] obtain e0 where
    "name e0 = n" "passes flt e0" "d = p \<longrightarrow> e0 \<in> set es"
    "d \<noteq> p \<longrightarrow> (\<exists>esd. getFolderNodes rd d = Inr esd \<and> e0 \<in> set esd)" by blast
  then have "name e0 = n \<and> passes flt e0 \<and> (d = p \<longrightarrow> e0 \<in> set (e # es))
        \<and> (d \<noteq> p \<longrightarrow> (\<exists>esd. getFolderNodes rd d = Inr esd \<and> e0 \<in> set esd))" by simp
  then show ?case ..
next
  case (walk_file e p es us)
  show ?case
  proof (cases "u \<in> set us")
    case True
    from walk_file.IH[OF True walk_file.prems(2,3)] obtain e0 where
      "name e0 = n" "passes flt e0" "d = p \<longrightarrow> e0 \<in> set es"
      "d \<noteq> p \<longrightarrow> (\<exists>esd. getFolderNodes rd d = Inr esd \<and> e0 \<in> set esd)" by blast
    then have "name e0 = n \<and> passes flt e0 \<and> (d = p \<longrightarrow> e0 \<in> set (e # es))
        \<and> (d \<noteq> p \<longrightarrow> (\<exists>esd. getFolderNodes rd d = Inr esd \<and> e0 \<in> set esd))" by simp
    then show ?thesis ..
  next
    case False
    with walk_file.prems(1) have "u = p @ [name e]" by (simp add: resolvePath_def)
    with walk_file.prems(3) have "prefix (d @ [n]) (p @ [name e])" by (simp only:)
    from prefix_same_length[OF walk_file.prems(2) this]
    have "d = p \<and> n = name e" .
    with walk_file.hyps(1)
    have "name e = n \<and> passes flt e \<and> (d = p \<longrightarrow> e \<in> set (e # es))
        \<and> (d \<noteq> p \<longrightarrow> (\<exists>esd. getFolderNodes rd d = Inr esd \<and> e \<in> set esd))" by simp
    then show ?thesis ..
  qed
next
  case (walk_dir e p es' us1 es us2)
  show ?case
  proof (cases "u \<in> set us1")
    case False
    with walk_dir.prems(1) have "u \<in> set us2" by simp
    from walk_dir.IH(2)[OF this walk_dir.prems(2,3)] obtain e0 where
      "name e0 = n" "passes flt e0" "d = p \<longrightarrow> e0 \<in> set es"
      "d \<noteq> p \<longrightarrow> (\<exists>esd. getFolderNodes rd d = Inr esd \<and> e0 \<in> set esd)" by blast
    then have "name e0 = n \<and> passes flt e0 \<and> (d = p \<longrightarrow> e0 \<in> set (e # es))
        \<and> (d \<noteq> p \<longrightarrow> (\<exists>esd. getFolderNodes rd d = Inr esd \<and> e0 \<in> set esd))" by simp
    then show ?thesis ..
  next
    case True
    from walk_below[OF walk_dir.hyps(4) True]
    have below: "prefix (p @ [name e]) u" by (simp add: resolvePath_def)
    show ?thesis
    proof (cases "d = p")
      case dp: True
      from walk_dir.prems(3) dp have "prefix (p @ [n]) u" by simp
      from same_child[OF this below] have "n = name e" .
      with dp walk_dir.hyps(1)
      have "name e = n \<and> passes flt e \<and> (d = p \<longrightarrow> e \<in> set (e # es))
        \<and> (d \<noteq> p \<longrightarrow> (\<exists>esd. getFolderNodes rd d = Inr esd \<and> e \<in> set esd))" by simp
      then show ?thesis ..
    next
      case dp: False
      have "prefix d u" using walk_dir.prems(3) by (rule append_prefixD)
      from child_between[OF walk_dir.prems(2) dp this below]
      have sub: "prefix (resolvePath p (name e)) d" by (simp only: resolvePath_def)
      from walk_dir.IH(1)[OF True sub walk_dir.prems(3)] obtain e0 where
        e0: "name e0 = n" "passes flt e0"
        and here: "d = resolvePath p (name e) \<longrightarrow> e0 \<in> set es'"
        and deeper: "d \<noteq> resolvePath p (name e) \<longrightarrow>
                       (\<exists>esd. getFolderNodes rd d = Inr esd \<and> e0 \<in> set esd)" by blast
      have "\<exists>esd. getFolderNodes rd d = Inr esd \<and> e0 \<in> set esd"
      proof (cases "d = resolvePath p (name e)")
        case True
        with here walk_dir.hyps(3) show ?thesis by simp
      next
        case False
        with deeper show ?thesis by simp
      qed
      with e0 dp
      have "name e0 = n \<and> passes flt e0 \<and> (d = p \<longrightarrow> e0 \<in> set (e # es))
        \<and> (d \<noteq> p \<longrightarrow> (\<exists>esd. getFolderNodes rd d = Inr esd \<and> e0 \<in> set esd))" by simp
      then show ?thesis ..
    qed
  qed
qed

lemma traverse_pruned:
  assumes t: "traverse k rd root flt = Some (Inr uris)"
    and u: "u \<in> set uris" and d: "prefix root d" and n: "prefix (d @ [n]) u"
  shows "\<exists>esd e. getFolderNodes rd d = Inr esd \<and> e \<in> set esd \<and> name e = n \<and> passes flt e"
proof -
  from traverse_walk[OF t] obtain es where
    g: "getFolderNodes rd root = Inr es" and w: "walkEntries rd flt root es uris" by blast
  from walk_pruned[OF w u d n] obtain e0 where
    e0: "name e0 = n" "passes flt e0"
    and here: "d = root \<longrightarrow> e0 \<in> set es"
    and deeper: "d \<noteq> root \<longrightarrow> (\<exists>esd. getFolderNodes rd d = Inr esd \<and> e0 \<in> set esd)" by blast
  have "\<exists>esd. getFolderNodes rd d = Inr esd \<and> e0 \<in> set esd"
  proof (cases "d = root")
    case True
    with here g show ?thesis by simp
  next
    case False
    with deeper show ?thesis by simp
  qed
  with e0 show ?thesis by blast
qed

lemma forEach_cong_body:
  "(\<And>e s. e \<in> set es \<Longrightarrow> body e s = body' e s) \<Longrightarrow> forEach body es s = forEach body' es s"
proof (induction es arbitrary: s)
  case Nil
  show ?case by simp
next
  case (Cons x es)
  have b: "body x s = body' x s" by (rule Cons.prems) simp
  have r: "forEach body es s1 = forEach body' es s1" for s1
    by (rule Cons.IH) (rule Cons.prems, simp)
  show ?case by (simp add: b r split: option.splits sum.splits)
qed

lemma getFolderNodes_agree: "rd' p = rd p \<Longrightarrow> getFolderNodes rd' p = getFolderNodes rd p"
  by (simp add: getFolderNodes_def)

lemma traverseFolder_agree_below:
  "(\<And>x. prefix q x \<Longrightarrow> rd' x = rd x)
     \<Longrightarrow> traverseFolder k rd' q flt c s = traverseFolder k rd q flt c s"
proof (induction k arbitrary: q s)
  case 0
  show ?case by simp
next
  case (Suc k)
  have g: "getFolderNodes rd' q = getFolderNodes rd q"
    by (rule getFolderNodes_agree) (rule Suc.prems, simp)
  have sub: "traverseFolder k rd' (resolvePath q m) flt c s0
               = traverseFolder k rd (resolvePath q m) flt c s0" for m s0
  proof (rule Suc.IH)
    fix x
    assume "prefix (resolvePath q m) x"
    then have "prefix q x" unfolding resolvePath_def by (rule append_prefixD)
    then show "rd' x = rd x" by (rule Suc.prems)
  qed
  have f: "forEach (step k rd' q flt c) es s0 = forEach (step k rd q flt c) es s0" for es s0
    by (rule forEach_cong_body) (simp add: Let_def sub)
  show ?case by (cases "getFolderNodes rd q") (simp_all add: g f)
qed

lemma disjoint_subtrees:
  assumes pd: "prefix p d" and notpre: "\<not> prefix (p @ [m]) d" and diff: "\<not> (d = p \<and> n = m)"
    and y: "prefix (p @ [m]) y"
  shows "\<not> prefix (d @ [n]) y"
proof
  assume "prefix (d @ [n]) y"
  with y have "prefix (d @ [n]) (p @ [m]) \<or> prefix (p @ [m]) (d @ [n])"
    using prefix_same_cases[of "d @ [n]" y "p @ [m]"] by simp
  then show False
  proof
    assume "prefix (d @ [n]) (p @ [m])"
    from prefix_same_length[OF pd this] diff show False by simp
  next
    assume a: "prefix (p @ [m]) (d @ [n])"
    then have "p @ [m] = d @ [n] \<or> prefix (p @ [m]) d" by (auto simp: prefix_snoc)
    with notpre have "p @ [m] = d @ [n]" by simp
    then have "d = p \<and> n = m" by simp
    with diff show False by simp
  qed
qed

lemma traverseFolder_ignores_rejected:
  assumes agree: "\<And>x. \<not> prefix (d @ [n]) x \<Longrightarrow> rd' x = rd x"
    and rej: "\<And>es e. getFolderNodes rd d = Inr es \<Longrightarrow> e \<in> set es \<Longrightarrow> name e = n
                \<Longrightarrow> \<not> passes flt e"
  shows "prefix p d \<Longrightarrow> traverseFolder k rd' p flt c s = traverseFolder k rd p flt c s"
proof (induction k arbitrary: p s)
  case 0
  show ?case by simp
next
  case (Suc k)
  have "\<not> prefix (d @ [n]) p"
  proof
    assume "prefix (d @ [n]) p"
    then have "length (d @ [n]) \<le> length p" by (rule prefix_length_le)
    moreover from Suc.prems have "length p \<le> length d" by (rule prefix_length_le)
    ultimately show False by simp
  qed
  then have "rd' p = rd p" by (rule agree)
  then have g: "getFolderNodes rd' p = getFolderNodes rd p" by (rule getFolderNodes_agree)
  show ?case
  proof (cases "getFolderNodes rd p")
    case (Inl e)
    with g show ?thesis by simp
  next
    case (Inr content)
    have "forEach (step k rd' p flt c) content s = forEach (step k rd p flt c) content s"
    proof (rule forEach_cong_body)
      fix x s0
      assume x: "x \<in> set content"
      show "step k rd' p flt c x s0 = step k rd p flt c x s0"
      proof (cases "passes flt x \<and> isDirectory x")
        case False
        then show ?thesis by (auto simp: Let_def)
      next
        case True
        have "traverseFolder k rd' (p @ [name x]) flt c s0
                = traverseFolder k rd (p @ [name x]) flt c s0"
        proof (cases "prefix (p @ [name x]) d")
          case True
          then show ?thesis by (rule Suc.IH)
        next
          case notpre: False
          have diff: "\<not> (d = p \<and> n = name x)"
          proof
            assume a: "d = p \<and> n = name x"
            with Inr have "getFolderNodes rd d = Inr content" by simp
            from rej[OF this x] a True show False by simp
          qed
          show ?thesis
          proof (rule traverseFolder_agree_below)
            fix y
            assume "prefix (p @ [name x]) y"
            from disjoint_subtrees[OF Suc.prems notpre diff this]
            show "rd' y = rd y" by (rule agree)
          qed
        qed
        with True show ?thesis by (simp add: Let_def resolvePath_def)
      qed
    qed
    with g Inr show ?thesis by simp
  qed
qed

lemma typeOf_replaceAt:
  "(q = [] \<longrightarrow> typeOf t' = typeOf t) \<Longrightarrow> typeOf (replaceAt t q t') = typeOf t"
  by (cases q; cases t) auto

lemma readdirOf_Cons:
  "readdirOf (Directory cs) (k # x)
     = (case map_of cs k of None \<Rightarrow> Inl ENOENT | Some c \<Rightarrow> readdirOf c x)"
  by (simp add: readdirOf_def split: option.splits)

lemma map_of_replaced:
  "map_of (map (\<lambda>(m, c). if m = n then (m, g c) else (m, c)) cs) k
     = (if k = n then map_option g (map_of cs n) else map_of cs k)"
  by (induction cs) auto

lemma readdirOf_replaceAt:
  "wellFormed T \<Longrightarrow> \<not> prefix q x \<Longrightarrow> (\<And>t0. lookup T q = Some t0 \<Longrightarrow> typeOf t' = typeOf t0)
     \<Longrightarrow> readdirOf (replaceAt T q t') x = readdirOf T x"
proof (induction x arbitrary: T q)
  case Nil
  then obtain n p where q: "q = n # p" by (cases q) auto
  show ?case
  proof (cases T)
    case (Directory cs)
    have same: "typeOf (replaceAt c p t') = typeOf c" if "(n, c) \<in> set cs" for c
    proof (rule typeOf_replaceAt, rule impI)
      assume "p = []"
      from Nil.prems(1) Directory that have "map_of cs n = Some c" by simp
      with Directory q \<open>p = []\<close> have "lookup T q = Some c" by simp
      then show "typeOf t' = typeOf c" by (rule Nil.prems(3))
    qed
    have "map (\<lambda>(m, c). \<lparr> dirent_name = m, dirent_type = typeOf c \<rparr>)
              (map (\<lambda>(m, c). if m = n then (m, replaceAt c p t') else (m, c)) cs)
          = map (\<lambda>(m, c). \<lparr> dirent_name = m, dirent_type = typeOf c \<rparr>) cs"
      using same by (auto simp: case_prod_beta)
    with Directory q show ?thesis by (simp add: readdirOf_def)
  qed (simp_all add: q)
next
  case (Cons k x)
  from Cons.prems(2) obtain n p where q: "q = n # p" by (cases q) auto
  show ?case
  proof (cases T)
    case (Directory cs)
    show ?thesis
    proof (cases "k = n")
      case False
      with Directory q show ?thesis by (simp add: readdirOf_Cons map_of_replaced)
    next
      case True
      show ?thesis
      proof (cases "map_of cs n")
        case None
        with Directory q True show ?thesis by (simp add: readdirOf_Cons map_of_replaced)
      next
        case (Some c)
        then have "(n, c) \<in> set cs" by (rule map_of_SomeD)
        with Cons.prems(1) Directory have wfc: "wellFormed c" using wellFormed_child by auto
        from Cons.prems(2) q True have np: "\<not> prefix p x" by simp
        have "readdirOf (replaceAt c p t') x = readdirOf c x"
        proof (rule Cons.IH[OF wfc np])
          fix t0
          assume "lookup c p = Some t0"
          with Directory q Some have "lookup T q = Some t0" by simp
          then show "typeOf t' = typeOf t0" by (rule Cons.prems(3))
        qed
        with Directory q True Some show ?thesis by (simp add: readdirOf_Cons map_of_replaced)
      qed
    qed
  qed (simp_all add: q)
qed

text \<open>
  C4: when the filter returns false for a directory entry \<open>e\<close> listed in a folder \<open>d\<close> at or
  below the root, the traversal does not descend into it: what \<open>traverse\<close> does, whether
  it returns locations, fails or does not return, is the same for every storage that
  differs only in the listings at or below the location of \<open>e\<close>, and so for every tree in
  which the directory at that location is replaced by any other, one that cannot be listed
  included; and a traversal that returns has collected no location at or below the
  location of \<open>e\<close>.
\<close>

theorem rejected_directory_pruned:
  assumes wf: "wellFormed T"
    and d: "prefix root d"
    and g: "getFolderNodes (readdirOf T) d = Inr es"
    and e: "e \<in> set es"
    and dir: "isDirectory e"
    and rej: "\<not> f e"
  shows "(\<forall>rd'. (\<forall>x. \<not> prefix (resolvePath d (name e)) x \<longrightarrow> rd' x = readdirOf T x) \<longrightarrow>
            traverse fuel rd' root (Some f) = traverse fuel (readdirOf T) root (Some f))
         \<and> (\<forall>t'. typeOf t' = UV_DIRENT_DIR \<longrightarrow>
              traverse fuel (readdirOf (replaceAt T (resolvePath d (name e)) t')) root (Some f)
                = traverse fuel (readdirOf T) root (Some f))
         \<and> (\<forall>uris. traverse fuel (readdirOf T) root (Some f) = Some (Inr uris) \<longrightarrow>
              (\<forall>u \<in> set uris. \<not> prefix (resolvePath d (name e)) u))"
proof -
  let ?q = "resolvePath d (name e)"
  have q: "?q = d @ [name e]" by (simp add: resolvePath_def)
  have rejected: "\<not> passes (Some f) e'"
    if "getFolderNodes (readdirOf T) d = Inr es'" "e' \<in> set es'" "name e' = name e" for es' e'
  proof -
    from that(1) g have "es' = es" by simp
    with that(2) have "e' \<in> set es" by simp
    from same_name_same_entry[OF tree_listing_distinct[OF wf g] e this that(3)] rej
    show ?thesis by (simp add: passes_def)
  qed
  have general: "traverse fuel rd' root (Some f) = traverse fuel (readdirOf T) root (Some f)"
    if agree: "\<forall>x. \<not> prefix ?q x \<longrightarrow> rd' x = readdirOf T x" for rd'
    unfolding traverse_def
  proof (rule traverseFolder_ignores_rejected[where d = d and n = "name e", OF _ _ d])
    fix x
    assume "\<not> prefix (d @ [name e]) x"
    with agree q show "rd' x = readdirOf T x" by simp
  next
    fix es' e'
    assume "getFolderNodes (readdirOf T) d = Inr es'" "e' \<in> set es'" "name e' = name e"
    then show "\<not> passes (Some f) e'" by (rule rejected)
  qed
  from entry_lookup[OF wf g e] dir obtain c where
    c: "lookup T (d @ [name e]) = Some c" "typeOf c = UV_DIRENT_DIR" by auto
  have tree: "traverse fuel (readdirOf (replaceAt T ?q t')) root (Some f)
                = traverse fuel (readdirOf T) root (Some f)"
    if t': "typeOf t' = UV_DIRENT_DIR" for t'
  proof (rule general, intro allI impI)
    fix x
    assume nx: "\<not> prefix ?q x"
    show "readdirOf (replaceAt T ?q t') x = readdirOf T x"
    proof (rule readdirOf_replaceAt[OF wf nx])
      fix t0
      assume "lookup T ?q = Some t0"
      with c q have "t0 = c" by simp
      with c(2) t' show "typeOf t' = typeOf t0" by simp
    qed
  qed
  have pruned: "\<not> prefix ?q u"
    if t: "traverse fuel (readdirOf T) root (Some f) = Some (Inr uris)" and u: "u \<in> set uris"
    for uris u
  proof
    assume "prefix ?q u"
    then have "prefix (d @ [name e]) u" by (simp add: resolvePath_def)
    from traverse_pruned[OF t u d this] obtain esd e' where
      "getFolderNodes (readdirOf T) d = Inr esd" "e' \<in> set esd" "name e' = name e"
      "passes (Some f) e'" by blast
    with rejected show False by blast
  qed
  from general tree pruned show ?thesis by blast
qed

theorem rejected_directory_pruned_witness:
  "wellFormed scenarioA_tree
   \<and> isDirectory (entryOf [''ws''] ''node_modules'' UV_DIRENT_DIR)
   \<and> \<not> includeNode (entryOf [''ws''] ''node_modules'' UV_DIRENT_DIR) [''.lang'']
   \<and> replaceAt scenarioA_tree [''ws'', ''node_modules''] (FailingDirectory EACCES) = scenarioA_locked
   \<and> readdirOf scenarioA_locked [''ws'', ''node_modules''] = Inl EACCES
   \<and> traverse 4 (readdirOf scenarioA_locked) [''ws''] None = Some (Inl EACCES)
   \<and> traverse 4 (readdirOf scenarioA_locked) [''ws''] (Some (\<lambda>node. includeNode node [''.lang'']))
       = Some (Inr [[''ws'', ''a.lang''], [''ws'', ''sub'', ''c.lang'']])
   \<and> traverse 4 (readdirOf scenarioA_tree) [''ws''] (Some (\<lambda>node. includeNode node [''.lang'']))
       = Some (Inr [[''ws'', ''a.lang''], [''ws'', ''sub'', ''c.lang'']])
   \<and> lookup scenarioA_tree [''ws'', ''node_modules'', ''d.lang''] = Some RegularFile
   \<and> \<not> prefix [''ws'', ''node_modules''] [''ws'', ''a.lang'']
   \<and> \<not> prefix [''ws'', ''node_modules''] [''ws'', ''sub'', ''c.lang'']"
proof -
  have t: "traverse 4 (readdirOf scenarioA_tree) [''ws''] (Some (\<lambda>node. includeNode node [''.lang'']))
       = Some (Inr [[''ws'', ''a.lang''], [''ws'', ''sub'', ''c.lang'']])"
    by code_simp
  have d: "prefix [''ws''] [''ws'']" by simp
  have e: "entryOf [''ws''] ''node_modules'' UV_DIRENT_DIR
             \<in> set ([entryOf [''ws''] ''a.lang'' UV_DIRENT_FILE, entryOf [''ws''] ''b.txt'' UV_DIRENT_FILE]
                    @ entryOf [''ws''] ''sub'' UV_DIRENT_DIR
                    # [entryOf [''ws''] ''node_modules'' UV_DIRENT_DIR])" by simp
  have dir: "isDirectory (entryOf [''ws''] ''node_modules'' UV_DIRENT_DIR)"
    by (simp add: entryOf_def)
  have rej: "\<not> includeNode (entryOf [''ws''] ''node_modules'' UV_DIRENT_DIR) [''.lang'']"
    by (simp add: entryOf_def includeNode_def startsWith_def)
  have l: "lookup scenarioA_tree [''ws'', ''node_modules'', ''d.lang''] = Some RegularFile"
    by (simp add: scenarioA_tree_def)
  have r: "resolvePath [''ws''] (name (entryOf [''ws''] ''node_modules'' UV_DIRENT_DIR))
             = [''ws'', ''node_modules'']"
    by (simp add: resolvePath_def entryOf_def)
  have rep: "replaceAt scenarioA_tree [''ws'', ''node_modules''] (FailingDirectory EACCES)
               = scenarioA_locked"
    by (simp add: scenarioA_tree_def scenarioA_locked_def)
  have fails: "readdirOf scenarioA_locked [''ws'', ''node_modules''] = Inl EACCES"
    by (simp add: readdirOf_def scenarioA_locked_def)
  have unfiltered: "traverse 4 (readdirOf scenarioA_locked) [''ws''] None = Some (Inl EACCES)"
    by code_simp
  have ty: "typeOf (FailingDirectory EACCES) = UV_DIRENT_DIR" by simp
  note inst = rejected_directory_pruned[where f = "\<lambda>node. includeNode node [''.lang'']"
      and fuel = 4, OF scenarioA_wellFormed d scenarioA_listing e dir rej, unfolded r]
  from inst have "traverse 4 (readdirOf (replaceAt scenarioA_tree [''ws'', ''node_modules'']
                     (FailingDirectory EACCES))) [''ws'']
                   (Some (\<lambda>node. includeNode node [''.lang'']))
                 = traverse 4 (readdirOf scenarioA_tree) [''ws'']
                   (Some (\<lambda>node. includeNode node [''.lang'']))"
    using ty by blast
  then have same: "traverse 4 (readdirOf scenarioA_locked) [''ws'']
                     (Some (\<lambda>node. includeNode node [''.lang'']))
                   = Some (Inr [[''ws'', ''a.lang''], [''ws'', ''sub'', ''c.lang'']])"
    by (simp only: rep t)
  from inst t have "\<forall>u \<in> set [[''ws'', ''a.lang''], [''ws'', ''sub'', ''c.lang'']].
                     \<not> prefix [''ws'', ''node_modules''] u"
    by blast
  then have n1: "\<not> prefix [''ws'', ''node_modules''] [''ws'', ''a.lang'']"
    and n2: "\<not> prefix [''ws'', ''node_modules''] [''ws'', ''sub'', ''c.lang'']"
    by (simp_all only: list.set ball_simps insert_iff simp_thms)
  show ?thesis
    by (intro conjI) (fact scenarioA_wellFormed dir rej rep fails unfiltered same t l n1 n2)+
qed

section \<open>Order of the result\<close>

lemma before_Cons: "before (x # xs) a b \<Longrightarrow> (a = x \<and> b \<in> set xs) \<or> before xs a b"
proof -
  assume "before (x # xs) a b"
  then obtain x0 y z where eq: "x # xs = x0 @ a # y @ b # z" by (auto simp: before_def)
  show ?thesis
  proof (cases x0)
    case Nil
    with eq show ?thesis by auto
  next
    case (Cons h t)
    with eq have "xs = t @ a # y @ b # z" by simp
    then show ?thesis by (auto simp: before_def)
  qed
qed

lemma before_appendL: "before xs a b \<Longrightarrow> before (ys @ xs) a b"
proof -
  assume "before xs a b"
  then obtain x y z where "xs = x @ a # y @ b # z" by (auto simp: before_def)
  then have "ys @ xs = (ys @ x) @ a # y @ b # z" by simp
  then show ?thesis unfolding before_def by blast
qed

lemma before_appendR: "before xs a b \<Longrightarrow> before (xs @ ys) a b"
proof -
  assume "before xs a b"
  then obtain x y z where "xs = x @ a # y @ b # z" by (auto simp: before_def)
  then have "xs @ ys = x @ a # y @ b # (z @ ys)" by simp
  then show ?thesis unfolding before_def by blast
qed

lemma before_split: "a \<in> set xs \<Longrightarrow> b \<in> set ys \<Longrightarrow> before (xs @ ys) a b"
proof -
  assume "a \<in> set xs" "b \<in> set ys"
  then obtain x1 x2 y1 y2 where "xs = x1 @ a # x2" "ys = y1 @ b # y2"
    by (meson split_list)
  then have "xs @ ys = x1 @ a # (x2 @ y1) @ b # y2" by simp
  then show ?thesis unfolding before_def by blast
qed

lemma before_mem: "before xs a b \<Longrightarrow> a \<in> set xs \<and> b \<in> set xs"
  by (auto simp: before_def)

lemma walk_order:
  assumes dn: "distinctNames rd"
  shows "walkEntries rd flt p es us \<Longrightarrow> distinct (map name es) \<Longrightarrow> prefix p d
     \<Longrightarrow> u \<in> set us \<Longrightarrow> v \<in> set us \<Longrightarrow> prefix (d @ [n1]) u \<Longrightarrow> prefix (d @ [n2]) v
     \<Longrightarrow> (d = p \<longrightarrow> before (map name es) n1 n2)
     \<Longrightarrow> (d \<noteq> p \<longrightarrow> (\<exists>esd. getFolderNodes rd d = Inr esd \<and> before (map name esd) n1 n2))
     \<Longrightarrow> before us u v"
proof (induction rule: walkEntries.induct)
  case (walk_done p)
  then show ?case by simp
next
  case (walk_skip e p es us)
  have dist: "distinct (map name es)" using walk_skip.prems(1) by simp
  have "name e \<notin> set (map name es)" using walk_skip.prems(1) by (simp del: set_map)
  then have fresh: "m \<noteq> name e" if "m \<in> set (map name es)" for m
    using that by blast
  have here: "d = p \<longrightarrow> before (map name es) n1 n2"
  proof
    assume dp: "d = p"
    with walk_skip.prems(7) have "before (name e # map name es) n1 n2" by simp
    from before_Cons[OF this] show "before (map name es) n1 n2"
    proof
      assume "n1 = name e \<and> n2 \<in> set (map name es)"
      with walk_entry_name[OF walk_skip.hyps(2) walk_skip.prems(3), of n1] walk_skip.prems(5) dp
        fresh[of n1]
      show ?thesis by simp
    qed
  qed
  from walk_skip.IH[OF dist walk_skip.prems(2,3,4,5,6) here walk_skip.prems(8)] show ?case .
next
  case (walk_other e p es us)
  have dist: "distinct (map name es)" using walk_other.prems(1) by simp
  have "name e \<notin> set (map name es)" using walk_other.prems(1) by (simp del: set_map)
  then have fresh: "m \<noteq> name e" if "m \<in> set (map name es)" for m
    using that by blast
  have here: "d = p \<longrightarrow> before (map name es) n1 n2"
  proof
    assume dp: "d = p"
    with walk_other.prems(7) have "before (name e # map name es) n1 n2" by simp
    from before_Cons[OF this] show "before (map name es) n1 n2"
    proof
      assume "n1 = name e \<and> n2 \<in> set (map name es)"
      with walk_entry_name[OF walk_other.hyps(4) walk_other.prems(3), of n1] walk_other.prems(5) dp
        fresh[of n1]
      show ?thesis by simp
    qed
  qed
  from walk_other.IH[OF dist walk_other.prems(2,3,4,5,6) here walk_other.prems(8)] show ?case .
next
  case (walk_file e p es us)
  let ?h = "resolvePath p (name e)"
  have dist: "distinct (map name es)" using walk_file.prems(1) by simp
  have "name e \<notin> set (map name es)" using walk_file.prems(1) by (simp del: set_map)
  then have fresh: "m \<noteq> name e" if "m \<in> set (map name es)" for m
    using that by blast
  have h: "?h = p @ [name e]" by (simp add: resolvePath_def)
  have notin: "\<not> prefix (p @ [name e]) x" if "x \<in> set us" for x
    using walk_entry_name[OF walk_file.hyps(4) that, of "name e"] fresh[of "name e"] by blast
  have tail: "before us u v \<Longrightarrow> before (?h # us) u v"
    using before_appendL[of us u v "[?h]"] by simp
  show ?case
  proof (cases "d = p")
    case False
    have "u \<noteq> ?h"
    proof
      assume "u = ?h"
      with walk_file.prems(5) h have "prefix (d @ [n1]) (p @ [name e])" by simp
      from prefix_same_length[OF walk_file.prems(2) this] False show False by simp
    qed
    moreover have "v \<noteq> ?h"
    proof
      assume "v = ?h"
      with walk_file.prems(6) h have "prefix (d @ [n2]) (p @ [name e])" by simp
      from prefix_same_length[OF walk_file.prems(2) this] False show False by simp
    qed
    ultimately have uv: "u \<in> set us" "v \<in> set us" using walk_file.prems(3,4) by simp_all
    have here: "d = p \<longrightarrow> before (map name es) n1 n2" using False by simp
    from walk_file.IH[OF dist walk_file.prems(2) uv walk_file.prems(5,6) here walk_file.prems(8)]
    show ?thesis by (rule tail)
  next
    case True
    with walk_file.prems(7) have "before (name e # map name es) n1 n2" by simp
    from before_Cons[OF this] show ?thesis
    proof
      assume a: "n1 = name e \<and> n2 \<in> set (map name es)"
      with walk_file.prems(5) True have "prefix (p @ [name e]) u" by simp
      with notin walk_file.prems(3) have u: "u = ?h" by auto
      from a fresh[of n2] have "n2 \<noteq> name e" by simp
      have "v \<noteq> ?h"
      proof
        assume "v = ?h"
        with walk_file.prems(6) True h have "prefix (p @ [n2]) (p @ [name e])" by simp
        then have "n2 = name e" by simp
        with \<open>n2 \<noteq> name e\<close> show False by simp
      qed
      with walk_file.prems(4) have "v \<in> set us" by simp
      then obtain y z where "us = y @ v # z" by (meson split_list)
      then have "?h # us = [] @ ?h # y @ v # z" by simp
      with u show ?thesis unfolding before_def by blast
    next
      assume b: "before (map name es) n1 n2"
      from before_mem[OF b] fresh[of n1] fresh[of n2] have ne: "n1 \<noteq> name e" "n2 \<noteq> name e"
        by simp_all
      have "u \<noteq> ?h"
      proof
        assume "u = ?h"
        with walk_file.prems(5) True h have "prefix (p @ [n1]) (p @ [name e])" by simp
        then have "n1 = name e" by simp
        with ne show False by simp
      qed
      moreover have "v \<noteq> ?h"
      proof
        assume "v = ?h"
        with walk_file.prems(6) True h have "prefix (p @ [n2]) (p @ [name e])" by simp
        then have "n2 = name e" by simp
        with ne show False by simp
      qed
      ultimately have uv: "u \<in> set us" "v \<in> set us" using walk_file.prems(3,4) by simp_all
      have here: "d = p \<longrightarrow> before (map name es) n1 n2" using b by simp
      from walk_file.IH[OF dist walk_file.prems(2) uv walk_file.prems(5,6) here walk_file.prems(8)]
      show ?thesis by (rule tail)
    qed
  qed
next
  case (walk_dir e p es' us1 es us2)
  let ?p' = "resolvePath p (name e)"
  have p': "?p' = p @ [name e]" by (simp add: resolvePath_def)
  have dist: "distinct (map name es)" using walk_dir.prems(1) by simp
  have "name e \<notin> set (map name es)" using walk_dir.prems(1) by (simp del: set_map)
  then have fresh: "m \<noteq> name e" if "m \<in> set (map name es)" for m
    using that by blast
  from getFolderNodes_Inr[OF walk_dir.hyps(3)] dn have dist': "distinct (map name es')"
    by (auto simp: distinctNames_def)
  have in1: "prefix (p @ [name e]) x" if "x \<in> set us1" for x
    using walk_below[OF walk_dir.hyps(4) that] p' by simp
  have in2: "\<not> prefix (p @ [name e]) x" if "x \<in> set us2" for x
    using walk_entry_name[OF walk_dir.hyps(5) that, of "name e"] fresh[of "name e"] by blast
  have pd: "prefix d u" "prefix d v"
    using walk_dir.prems(5,6) by (auto dest: append_prefixD)
  show ?case
  proof (cases "d = p")
    case True
    with walk_dir.prems(7) have "before (name e # map name es) n1 n2" by simp
    from before_Cons[OF this] show ?thesis
    proof
      assume a: "n1 = name e \<and> n2 \<in> set (map name es)"
      with walk_dir.prems(5) True have "prefix (p @ [name e]) u" by simp
      with in2 walk_dir.prems(3) have u: "u \<in> set us1" by auto
      from a fresh[of n2] have "n2 \<noteq> name e" by simp
      have "v \<notin> set us1"
      proof
        assume mem: "v \<in> set us1"
        from walk_dir.prems(6) True have "prefix (p @ [n2]) v" by simp
        from same_child[OF in1[OF mem] this] have "name e = n2" .
        with \<open>n2 \<noteq> name e\<close> show False by simp
      qed
      with walk_dir.prems(4) have "v \<in> set us2" by simp
      with u show ?thesis by (rule before_split)
    next
      assume b: "before (map name es) n1 n2"
      from before_mem[OF b] fresh[of n1] fresh[of n2] have ne: "n1 \<noteq> name e" "n2 \<noteq> name e"
        by simp_all
      have "u \<notin> set us1"
      proof
        assume mem: "u \<in> set us1"
        from walk_dir.prems(5) True have "prefix (p @ [n1]) u" by simp
        from same_child[OF in1[OF mem] this] have "name e = n1" .
        with ne show False by simp
      qed
      moreover have "v \<notin> set us1"
      proof
        assume mem: "v \<in> set us1"
        from walk_dir.prems(6) True have "prefix (p @ [n2]) v" by simp
        from same_child[OF in1[OF mem] this] have "name e = n2" .
        with ne show False by simp
      qed
      ultimately have uv: "u \<in> set us2" "v \<in> set us2" using walk_dir.prems(3,4) by simp_all
      have here: "d = p \<longrightarrow> before (map name es) n1 n2" using b by simp
      from walk_dir.IH(2)[OF dist walk_dir.prems(2) uv walk_dir.prems(5,6) here walk_dir.prems(8)]
      show ?thesis by (rule before_appendL)
    qed
  next
    case False
    from walk_dir.prems(8) False obtain esd where
      esd: "getFolderNodes rd d = Inr esd" "before (map name esd) n1 n2" by blast
    show ?thesis
    proof (cases "prefix (p @ [name e]) d")
      case True
      then have "prefix (p @ [name e]) u" "prefix (p @ [name e]) v"
        using pd prefix_order.trans by blast+
      with in2 walk_dir.prems(3,4) have uv: "u \<in> set us1" "v \<in> set us1" by auto
      from True p' have sub: "prefix ?p' d" by simp
      have here: "d = ?p' \<longrightarrow> before (map name es') n1 n2"
        using esd walk_dir.hyps(3) by auto
      have deeper: "d \<noteq> ?p' \<longrightarrow> (\<exists>esd. getFolderNodes rd d = Inr esd \<and> before (map name esd) n1 n2)"
        using esd by blast
      from walk_dir.IH(1)[OF dist' sub uv walk_dir.prems(5,6) here deeper]
      show ?thesis by (rule before_appendR)
    next
      case nd: False
      have "u \<notin> set us1"
      proof
        assume "u \<in> set us1"
        from child_between[OF walk_dir.prems(2) False pd(1) in1[OF this]] nd show False by simp
      qed
      moreover have "v \<notin> set us1"
      proof
        assume "v \<in> set us1"
        from child_between[OF walk_dir.prems(2) False pd(2) in1[OF this]] nd show False by simp
      qed
      ultimately have uv: "u \<in> set us2" "v \<in> set us2" using walk_dir.prems(3,4) by simp_all
      have here: "d = p \<longrightarrow> before (map name es) n1 n2" using False by simp
      from walk_dir.IH(2)[OF dist walk_dir.prems(2) uv walk_dir.prems(5,6) here walk_dir.prems(8)]
      show ?thesis by (rule before_appendL)
    qed
  qed
qed

text \<open>
  C6: for every directory tree and every filter, when a folder \<open>d\<close> at or below the root
  lists the entry \<open>e1\<close> before the entry \<open>e2\<close>, every location that the traversal collects at
  or below \<open>e1\<close> stands in the result before every location it collects at or below \<open>e2\<close>;
  the result has no repetition, so their positions are unique.  With \<open>e1\<close> and \<open>e2\<close> files
  this is the order of the listing; with \<open>e1\<close> a directory, all files found under it precede
  the files of the entries listed after it.
\<close>

theorem traverse_preorder:
  assumes wf: "wellFormed T"
    and t: "traverse fuel (readdirOf T) root flt = Some (Inr uris)"
    and d: "prefix root d"
    and g: "getFolderNodes (readdirOf T) d = Inr (es1 @ e1 # es2)"
    and e2: "e2 \<in> set es2"
    and u: "u \<in> set uris" "prefix (resolvePath d (name e1)) u"
    and v: "v \<in> set uris" "prefix (resolvePath d (name e2)) v"
  shows "distinct uris \<and> (\<exists>a b c. uris = a @ u # b @ v # c)"
proof -
  from traverse_walk[OF t] obtain es0 where
    g0: "getFolderNodes (readdirOf T) root = Inr es0"
    and w: "walkEntries (readdirOf T) flt root es0 uris" by blast
  have dist0: "distinct (map name es0)" by (rule tree_listing_distinct[OF wf g0])
  have dn: "distinctNames (readdirOf T)" by (rule wellFormed_distinctNames[OF wf])
  from e2 obtain y z where "es2 = y @ e2 # z" by (meson split_list)
  then have "map name (es1 @ e1 # es2)
               = map name es1 @ name e1 # map name y @ name e2 # map name z" by simp
  then have b: "before (map name (es1 @ e1 # es2)) (name e1) (name e2)"
    unfolding before_def by blast
  have here: "d = root \<longrightarrow> before (map name es0) (name e1) (name e2)"
    using b g g0 by auto
  have deeper: "d \<noteq> root \<longrightarrow> (\<exists>esd. getFolderNodes (readdirOf T) d = Inr esd
                   \<and> before (map name esd) (name e1) (name e2))"
    using b g by blast
  have pu: "prefix (d @ [name e1]) u" and pv: "prefix (d @ [name e2]) v"
    using u(2) v(2) by (simp_all add: resolvePath_def)
  from walk_order[OF dn w dist0 d u(1) v(1) pu pv here deeper]
  have "\<exists>a b c. uris = a @ u # b @ v # c" by (simp add: before_def)
  with walk_distinct[OF dn w dist0] show ?thesis by simp
qed

theorem traverse_preorder_witness:
  "wellFormed scenarioA_tree
   \<and> traverse 4 (readdirOf scenarioA_tree) [''ws''] None
       = Some (Inr [[''ws'', ''a.lang''], [''ws'', ''b.txt''], [''ws'', ''sub'', ''c.lang''],
                    [''ws'', ''node_modules'', ''d.lang'']])
   \<and> getFolderNodes (readdirOf scenarioA_tree) [''ws'']
       = Inr ([entryOf [''ws''] ''a.lang'' UV_DIRENT_FILE, entryOf [''ws''] ''b.txt'' UV_DIRENT_FILE]
              @ entryOf [''ws''] ''sub'' UV_DIRENT_DIR
              # [entryOf [''ws''] ''node_modules'' UV_DIRENT_DIR])
   \<and> (\<exists>a b c. [[''ws'', ''a.lang''], [''ws'', ''b.txt''], [''ws'', ''sub'', ''c.lang''],
                 [''ws'', ''node_modules'', ''d.lang'']]
                = a @ [''ws'', ''sub'', ''c.lang''] # b @ [''ws'', ''node_modules'', ''d.lang''] # c)"
proof -
  have d: "prefix [''ws''] [''ws'']" by simp
  have e2: "entryOf [''ws''] ''node_modules'' UV_DIRENT_DIR
              \<in> set [entryOf [''ws''] ''node_modules'' UV_DIRENT_DIR]" by simp
  have u: "[''ws'', ''sub'', ''c.lang'']
             \<in> set [[''ws'', ''a.lang''], [''ws'', ''b.txt''], [''ws'', ''sub'', ''c.lang''],
                    [''ws'', ''node_modules'', ''d.lang'']]" by simp
  have pu: "prefix (resolvePath [''ws''] (name (entryOf [''ws''] ''sub'' UV_DIRENT_DIR)))
              [''ws'', ''sub'', ''c.lang'']" by (simp add: resolvePath_def entryOf_def)
  have v: "[''ws'', ''node_modules'', ''d.lang'']
             \<in> set [[''ws'', ''a.lang''], [''ws'', ''b.txt''], [''ws'', ''sub'', ''c.lang''],
                    [''ws'', ''node_modules'', ''d.lang'']]" by simp
  have pv: "prefix (resolvePath [''ws''] (name (entryOf [''ws''] ''node_modules'' UV_DIRENT_DIR)))
              [''ws'', ''node_modules'', ''d.lang'']" by (simp add: resolvePath_def entryOf_def)
  from traverse_preorder[OF scenarioA_wellFormed scenarioA_unfiltered d scenarioA_listing e2 u pu v pv]
  have ex: "\<exists>a b c. [[''ws'', ''a.lang''], [''ws'', ''b.txt''], [''ws'', ''sub'', ''c.lang''],
                 [''ws'', ''node_modules'', ''d.lang'']]
                = a @ [''ws'', ''sub'', ''c.lang''] # b @ [''ws'', ''node_modules'', ''d.lang''] # c"
    by (rule conjunct2)
  show ?thesis
    by (intro conjI) (fact scenarioA_wellFormed scenarioA_unfiltered scenarioA_listing ex)+
qed

section \<open>Sequential traversal\<close>

lemma forEach_append:
  "forEach body (xs @ ys) s = Some (Inr s') \<Longrightarrow>
     \<exists>s1. forEach body xs s = Some (Inr s1) \<and> forEach body ys s1 = Some (Inr s')"
proof (induction xs arbitrary: s)
  case Nil
  then show ?case by simp
next
  case (Cons x xs)
  from Cons.prems obtain s0 where b: "body x s = Some (Inr s0)"
    and f: "forEach body (xs @ ys) s0 = Some (Inr s')"
    by (auto split: option.splits sum.splits)
  from Cons.IH[OF f] b show ?case by simp
qed

lemma forEach_shift:
  assumes "\<And>e s. e \<in> set es \<Longrightarrow> body e s = map_option (map_sum (\<lambda>x. x) ((@) s)) (body e [])"
  shows "forEach body es s = map_option (map_sum (\<lambda>x. x) ((@) s)) (forEach body es [])"
  using assms
proof (induction es arbitrary: s)
  case Nil
  then show ?case by simp
next
  case (Cons e es)
  have be: "body e s = map_option (map_sum (\<lambda>x. x) ((@) s)) (body e [])"
    by (rule Cons.prems) simp
  have IH: "forEach body es s0 = map_option (map_sum (\<lambda>x. x) ((@) s0)) (forEach body es [])" for s0
    by (rule Cons.IH) (rule Cons.prems, simp)
  show ?case
  proof (cases "body e []")
    case None
    with be show ?thesis by simp
  next
    case (Some r)
    show ?thesis
    proof (cases r)
      case (Inl x)
      with Some be show ?thesis by simp
    next
      case (Inr t)
      with Some be have "forEach body (e # es) s = forEach body es (s @ t)" by simp
      also have "\<dots> = map_option (map_sum (\<lambda>x. x) ((@) (s @ t))) (forEach body es [])" by (rule IH)
      also have "\<dots> = map_option (map_sum (\<lambda>x. x) ((@) s)) (forEach body es t)"
        unfolding IH[of t] by (cases "forEach body es []") (auto simp: map_sum_def split: sum.splits)
      also have "\<dots> = map_option (map_sum (\<lambda>x. x) ((@) s)) (forEach body (e # es) [])"
        using Some Inr by simp
      finally show ?thesis .
    qed
  qed
qed

lemma traverseFolder_shift:
  "traverseFolder k rd p flt push s = map_option (map_sum (\<lambda>x. x) ((@) s)) (traverseFolder k rd p flt push [])"
proof (induction k arbitrary: p s)
  case 0
  show ?case by simp
next
  case (Suc k)
  show ?case
  proof (cases "getFolderNodes rd p")
    case (Inl e)
    then show ?thesis by simp
  next
    case (Inr content)
    have "forEach (step k rd p flt push) content s
            = map_option (map_sum (\<lambda>x. x) ((@) s)) (forEach (step k rd p flt push) content [])"
    proof (rule forEach_shift)
      fix e s0
      show "step k rd p flt push e s0 = map_option (map_sum (\<lambda>x. x) ((@) s0)) (step k rd p flt push e [])"
      proof (cases "passes flt e \<and> isDirectory e")
        case True
        then have "step k rd p flt push e s0
                     = traverseFolder k rd (resolvePath p (name e)) flt push s0"
          and "step k rd p flt push e []
                 = traverseFolder k rd (resolvePath p (name e)) flt push []"
          by (simp_all add: Let_def)
        then show ?thesis by (simp only: Suc.IH[of "resolvePath p (name e)" s0])
      next
        case False
        have "push u s0 = s0 @ [u]" "push u [] = [u]" for u :: URI by (simp_all add: push_def)
        with False show ?thesis by (auto simp: Let_def)
      qed
    qed
    with Inr show ?thesis by simp
  qed
qed

lemma traverseFolder_from_empty:
  assumes "traverseFolder k rd p flt push s = Some (Inr s')"
  shows "\<exists>us. traverse k rd p flt = Some (Inr us) \<and> s' = s @ us"
proof -
  from assms have "map_option (map_sum (\<lambda>x. x) ((@) s)) (traverseFolder k rd p flt push []) = Some (Inr s')"
    by (simp only: traverseFolder_shift[of k rd p flt s])
  then show ?thesis
    by (cases "traverseFolder k rd p flt push []")
       (auto simp: traverse_def map_sum_def split: sum.splits)
qed

text \<open>
  C10: the result of \<open>traverse\<close> is a function of the listings and the filter: two runs
  that return, whatever fuel they had, return the same.  And the traversal is sequential:
  the locations of an accepted subdirectory \<open>e\<close> stand in the result as one block, which is
  the result of traversing that subdirectory alone, after everything collected from the
  entries listed before \<open>e\<close> and before everything collected from the entries listed after.
\<close>

theorem traverse_sequential:
  "(traverse k1 rd root flt = Some r1 \<and> traverse k2 rd root flt = Some r2 \<longrightarrow> r1 = r2)
   \<and> (traverse (Suc k) rd root flt = Some (Inr uris)
        \<and> getFolderNodes rd root = Inr (pre @ e # post) \<and> passes flt e \<and> isDirectory e \<longrightarrow>
        (\<exists>a sub c. uris = a @ sub @ c
           \<and> traverse k rd (resolvePath root (name e)) flt = Some (Inr sub)
           \<and> (\<forall>x \<in> set a. \<exists>e' \<in> set pre. prefix (resolvePath root (name e')) x)
           \<and> (\<forall>x \<in> set c. \<exists>e' \<in> set post. prefix (resolvePath root (name e')) x)))"
proof (intro conjI impI)
  assume "traverse k1 rd root flt = Some r1 \<and> traverse k2 rd root flt = Some r2"
  then show "r1 = r2"
    using traverseFolder_fuel_irrelevant[of k1 rd root flt push "[]" r1 k2 r2]
    by (simp add: traverse_def)
next
  assume a: "traverse (Suc k) rd root flt = Some (Inr uris)
        \<and> getFolderNodes rd root = Inr (pre @ e # post) \<and> passes flt e \<and> isDirectory e"
  then have "traverse (Suc k) rd root flt = Some (Inr uris)"
    and "getFolderNodes rd root = Inr (pre @ e # post)" by simp_all
  then have f: "forEach (step k rd root flt push) (pre @ e # post) [] = Some (Inr uris)"
    by (simp add: traverse_def)
  from forEach_append[OF f] obtain s1 where
    f1: "forEach (step k rd root flt push) pre [] = Some (Inr s1)"
    and f2: "forEach (step k rd root flt push) (e # post) s1 = Some (Inr uris)" by blast
  from f2 a obtain s2 where
    b: "traverseFolder k rd (resolvePath root (name e)) flt push s1 = Some (Inr s2)"
    and f3: "forEach (step k rd root flt push) post s2 = Some (Inr uris)"
    by (auto simp: Let_def split: option.splits sum.splits)
  from traverseFolder_from_empty[OF b] obtain sub where
    sub: "traverse k rd (resolvePath root (name e)) flt = Some (Inr sub)" "s2 = s1 @ sub" by blast
  have "\<exists>us. walkEntries rd flt root pre us \<and> s1 = [] @ us"
    by (rule forEach_walk[OF _ f1]) (rule traverseFolder_walk)
  then have w1: "walkEntries rd flt root pre s1" by simp
  have "\<exists>us. walkEntries rd flt root post us \<and> uris = s2 @ us"
    by (rule forEach_walk[OF _ f3]) (rule traverseFolder_walk)
  then obtain c where
    w3: "walkEntries rd flt root post c" and uris: "uris = s2 @ c" by blast
  have "\<forall>x \<in> set s1. \<exists>e' \<in> set pre. prefix (resolvePath root (name e')) x"
    using walk_prefix[OF w1] by (auto simp: resolvePath_def)
  moreover have "\<forall>x \<in> set c. \<exists>e' \<in> set post. prefix (resolvePath root (name e')) x"
    using walk_prefix[OF w3] by (auto simp: resolvePath_def)
  moreover have "uris = s1 @ sub @ c" using uris sub(2) by simp
  ultimately show "\<exists>a sub c. uris = a @ sub @ c
           \<and> traverse k rd (resolvePath root (name e)) flt = Some (Inr sub)
           \<and> (\<forall>x \<in> set a. \<exists>e' \<in> set pre. prefix (resolvePath root (name e')) x)
           \<and> (\<forall>x \<in> set c. \<exists>e' \<in> set post. prefix (resolvePath root (name e')) x)"
    using sub(1) by blast
qed

theorem traverse_sequential_witness:
  "traverse 3 (readdirOf scenarioA_tree) [''ws''] None
     = Some (Inr [[''ws'', ''a.lang''], [''ws'', ''b.txt''], [''ws'', ''sub'', ''c.lang''],
                  [''ws'', ''node_modules'', ''d.lang'']])
   \<and> traverse 4 (readdirOf scenarioA_tree) [''ws''] None
       = Some (Inr [[''ws'', ''a.lang''], [''ws'', ''b.txt''], [''ws'', ''sub'', ''c.lang''],
                    [''ws'', ''node_modules'', ''d.lang'']])
   \<and> passes None (entryOf [''ws''] ''sub'' UV_DIRENT_DIR)
   \<and> isDirectory (entryOf [''ws''] ''sub'' UV_DIRENT_DIR)
   \<and> (\<exists>a sub c. [[''ws'', ''a.lang''], [''ws'', ''b.txt''], [''ws'', ''sub'', ''c.lang''],
                   [''ws'', ''node_modules'', ''d.lang'']] = a @ sub @ c
         \<and> traverse 3 (readdirOf scenarioA_tree) [''ws'', ''sub''] None = Some (Inr sub))"
proof -
  have t3: "traverse 3 (readdirOf scenarioA_tree) [''ws''] None
     = Some (Inr [[''ws'', ''a.lang''], [''ws'', ''b.txt''], [''ws'', ''sub'', ''c.lang''],
                  [''ws'', ''node_modules'', ''d.lang'']])" by code_simp
  have t4: "traverse (Suc 3) (readdirOf scenarioA_tree) [''ws''] None
     = Some (Inr [[''ws'', ''a.lang''], [''ws'', ''b.txt''], [''ws'', ''sub'', ''c.lang''],
                  [''ws'', ''node_modules'', ''d.lang'']])" by code_simp
  have p: "passes None (entryOf [''ws''] ''sub'' UV_DIRENT_DIR)" by (simp add: passes_def)
  have dir: "isDirectory (entryOf [''ws''] ''sub'' UV_DIRENT_DIR)" by (simp add: entryOf_def)
  have r: "resolvePath [''ws''] (name (entryOf [''ws''] ''sub'' UV_DIRENT_DIR)) = [''ws'', ''sub'']"
    by (simp add: resolvePath_def entryOf_def)
  have t4': "traverse 4 (readdirOf scenarioA_tree) [''ws''] None
     = Some (Inr [[''ws'', ''a.lang''], [''ws'', ''b.txt''], [''ws'', ''sub'', ''c.lang''],
                  [''ws'', ''node_modules'', ''d.lang'']])" by code_simp
  have hyp: "traverse (Suc 3) (readdirOf scenarioA_tree) [''ws''] None
        = Some (Inr [[''ws'', ''a.lang''], [''ws'', ''b.txt''], [''ws'', ''sub'', ''c.lang''],
                  [''ws'', ''node_modules'', ''d.lang'']])
      \<and> getFolderNodes (readdirOf scenarioA_tree) [''ws'']
          = Inr ([entryOf [''ws''] ''a.lang'' UV_DIRENT_FILE, entryOf [''ws''] ''b.txt'' UV_DIRENT_FILE]
            @ entryOf [''ws''] ''sub'' UV_DIRENT_DIR
            # [entryOf [''ws''] ''node_modules'' UV_DIRENT_DIR])
      \<and> passes None (entryOf [''ws''] ''sub'' UV_DIRENT_DIR)
      \<and> isDirectory (entryOf [''ws''] ''sub'' UV_DIRENT_DIR)"
    by (intro conjI) (fact t4 scenarioA_listing p dir)+
  have "\<exists>a sub c. [[''ws'', ''a.lang''], [''ws'', ''b.txt''], [''ws'', ''sub'', ''c.lang''],
                   [''ws'', ''node_modules'', ''d.lang'']] = a @ sub @ c
         \<and> traverse 3 (readdirOf scenarioA_tree) [''ws'', ''sub''] None = Some (Inr sub)
         \<and> (\<forall>x \<in> set a. \<exists>e' \<in> set [entryOf [''ws''] ''a.lang'' UV_DIRENT_FILE,
                                          entryOf [''ws''] ''b.txt'' UV_DIRENT_FILE].
                 prefix (resolvePath [''ws''] (name e')) x)
         \<and> (\<forall>x \<in> set c. \<exists>e' \<in> set [entryOf [''ws''] ''node_modules'' UV_DIRENT_DIR].
                 prefix (resolvePath [''ws''] (name e')) x)"
    using traverse_sequential[where k = 3 and rd = "readdirOf scenarioA_tree" and root = "[''ws'']"
        and flt = None and e = "entryOf [''ws''] ''sub'' UV_DIRENT_DIR",
        THEN conjunct2, THEN mp, OF hyp]
    unfolding r .
  then have ex: "\<exists>a sub c. [[''ws'', ''a.lang''], [''ws'', ''b.txt''], [''ws'', ''sub'', ''c.lang''],
                   [''ws'', ''node_modules'', ''d.lang'']] = a @ sub @ c
         \<and> traverse 3 (readdirOf scenarioA_tree) [''ws'', ''sub''] None = Some (Inr sub)"
    by blast
  show ?thesis by (intro conjI) (fact t3 t4' p dir ex)+
qed

end
